theory Spec2Isabelle
  imports Complex_Main "HOL-Library.Word" "HOL-Library.Multiset"
begin

chapter \<open>The signal-processing pipeline of Vkav\<close>

text \<open>
  A shallow embedding of \<^verbatim>\<open>src/Proccess.cpp\<close>: the windowing, the radix-2 transform,
  the channel demultiplexer, the equaliser, the volume reduction and the Gaussian kernel
  smoother, followed by the properties of the specification that hold of them.
\<close>

unbundle bit_operations_syntax

section \<open>Bit reversal\<close>

text \<open>
  \<^verbatim>\<open>reverseBits(val, n)\<close>: the loop shifts \<open>reversed\<close> left and adds bit \<open>i\<close> of \<open>val\<close>, for
  \<open>i = 0, ..., n - 1\<close>. \<open>size_t\<close> values are natural numbers; \<open>n\<close> is at most 15 where the
  function is called, so neither the shift \<^verbatim>\<open>1 << i\<close> nor \<open>reversed\<close> overflows.
\<close>

function reverseBits_loop :: "nat \<Rightarrow> nat \<Rightarrow> nat \<Rightarrow> nat \<Rightarrow> nat" where
  "reverseBits_loop val n i reversed =
     (if i < n
      then reverseBits_loop val n (i + 1)
             (push_bit 1 reversed + (if val AND push_bit i 1 \<noteq> 0 then 1 else 0))
      else reversed)"
  by pat_completeness auto

termination
  by (relation "measure (\<lambda>(val, n, i, reversed). n - i)") auto

definition reverseBits :: "nat \<Rightarrow> nat \<Rightarrow> nat" where
  "reverseBits val n = reverseBits_loop val n 0 0"

text \<open>
  The fallback branch of \<^verbatim>\<open>bitReverseShuffle\<close> (the branch compiled when \<^verbatim>\<open>__builtin_ctz\<close> is
  not a preprocessor macro): \<open>numBits\<close> starts at 15 and is lowered by 8, 4, 2, 1 according to
  four masks.
\<close>

definition numBits :: "nat \<Rightarrow> nat" where
  "numBits sz =
     (let nb = 15;
          nb = (if sz AND 0x00FF \<noteq> 0 then nb - 8 else nb);
          nb = (if sz AND 0x0F0F \<noteq> 0 then nb - 4 else nb);
          nb = (if sz AND 0x3333 \<noteq> 0 then nb - 2 else nb);
          nb = (if sz AND 0x5555 \<noteq> 0 then nb - 1 else nb)
      in nb)"

text \<open>
  The swap loop of \<^verbatim>\<open>bitReverseShuffle\<close>. The list is the array \<^verbatim>\<open>first[0 .. size)\<close>; a swap
  that addresses an element outside the list has no defined result (\<open>None\<close>).
\<close>

function shuffle_loop :: "'a list \<Rightarrow> nat \<Rightarrow> nat \<Rightarrow> nat \<Rightarrow> 'a list option" where
  "shuffle_loop first sz nb i =
     (if i < sz
      then (let j = reverseBits i nb
            in if i < j
               then (if j < length first
                     then shuffle_loop (first[i := first ! j, j := first ! i]) sz nb (i + 1)
                     else None)
               else shuffle_loop first sz nb (i + 1))
      else Some first)"
  by pat_completeness auto

termination
  by (relation "measure (\<lambda>(first, sz, nb, i). sz - i)") auto

definition bitReverseShuffle :: "'a list \<Rightarrow> nat \<Rightarrow> 'a list option" where
  "bitReverseShuffle first sz = shuffle_loop first sz (numBits sz) 0"

declare reverseBits_loop.simps [simp del] shuffle_loop.simps [simp del]

section \<open>The radix-2 transform\<close>

text \<open>
  The three nested loops of \<^verbatim>\<open>fft\<close>, innermost first. Samples are exact complex numbers:
  rounding is not modelled. \<open>fft_butterflies\<close> is the loop over \<open>j\<close> with the running twiddle
  factor \<open>w\<close>; a butterfly that addresses an element outside the list yields \<open>None\<close>.
\<close>

function fft_butterflies ::
  "complex list \<Rightarrow> nat \<Rightarrow> nat \<Rightarrow> complex \<Rightarrow> nat \<Rightarrow> complex \<Rightarrow> complex list option" where
  "fft_butterflies first m k wm j w =
     (if 2 * j < m
      then (if k + j + m div 2 < length first
            then (let t = w * first ! (k + j + m div 2);
                      u = first ! (k + j)
                  in fft_butterflies (first[k + j := u + t, k + j + m div 2 := u - t])
                       m k wm (j + 1) (w * wm))
            else None)
      else Some first)"
  by pat_completeness auto

termination
  by (relation "measure (\<lambda>(first, m, k, wm, j, w). m - 2 * j)") auto

text \<open>
  The loop over the blocks \<open>k = 0, m, 2 m, ...\<close> and the loop over the stages
  \<open>m = 2, 4, 8, ...\<close>. The counters are \<open>size_t\<close>, so \<open>k + m\<close> and \<open>m << 1\<close> wrap at \<open>2^64\<close>; after
  such a wrap the source does not terminate, which is the value \<open>None\<close> here.
\<close>

partial_function (option) fft_blocks ::
  "complex list \<Rightarrow> nat \<Rightarrow> nat \<Rightarrow> complex \<Rightarrow> nat \<Rightarrow> complex list option" where
  "fft_blocks first sz m wm k =
     (if k < sz
      then (case fft_butterflies first m k wm 0 1 of
              None \<Rightarrow> None
            | Some first' \<Rightarrow> fft_blocks first' sz m wm ((k + m) mod 2 ^ 64))
      else Some first)"

partial_function (option) fft_stages :: "complex list \<Rightarrow> nat \<Rightarrow> nat \<Rightarrow> complex list option" where
  "fft_stages first sz m =
     (if m \<le> sz
      then (case fft_blocks first sz m (exp (Complex 0 (- 2 * pi / real m))) 0 of
              None \<Rightarrow> None
            | Some first' \<Rightarrow> fft_stages first' sz ((2 * m) mod 2 ^ 64))
      else Some first)"

definition fft :: "complex list \<Rightarrow> nat \<Rightarrow> complex list option" where
  "fft first sz =
     (case bitReverseShuffle first sz of
        None \<Rightarrow> None
      | Some first' \<Rightarrow> fft_stages first' sz 2)"

declare fft_butterflies.simps [simp del]

section \<open>Single-precision values\<close>

text \<open>
  A \<^verbatim>\<open>float\<close> is an exact real number or one of the three special values of IEEE 754.
  Sums, products, quotients, square roots and logarithms of finite values are exact (no
  rounding, no overflow, no underflow) and the sign of zero is not represented: a zero
  divisor counts as \<open>+0\<close>, which is the sign of every zero divisor the pipeline can produce
  (a product of two equal factors, or a sum of exponentials). The special values follow
  IEEE 754: \<open>x / 0\<close> is an infinity for \<open>x \<noteq> 0\<close> and NaN for \<open>x = 0\<close>, \<open>\<infinity> - \<infinity>\<close>, \<open>0 * \<infinity>\<close> and
  \<open>\<infinity> / \<infinity>\<close> are NaN, NaN propagates, and every comparison with NaN is false.

  \<^verbatim>\<open>expf\<close> has its single-precision range. Results are rounded to the nearest float:
  below \<open>- 150 ln 2\<close> (about \<open>-103.97\<close>) the exponential is less than half the smallest
  subnormal number \<open>2^(-149)\<close> and the result is \<open>0\<close>; above \<open>128 ln 2\<close> (about \<open>88.72\<close>) the
  result is \<open>+\<infinity>\<close>; in between the result is positive, and the model takes the exact
  exponential for it. So a Gaussian weight can be \<open>0\<close>, and the sum of the weights of a
  non-empty window can be \<open>0\<close>.
\<close>

datatype flt = Fin real | PInf | NInf | NaN

fun isnan :: "flt \<Rightarrow> bool" where
  "isnan NaN = True"
| "isnan _ = False"

fun isfinite :: "flt \<Rightarrow> bool" where
  "isfinite (Fin _) = True"
| "isfinite _ = False"

fun fneg :: "flt \<Rightarrow> flt" where
  "fneg (Fin a) = Fin (- a)"
| "fneg PInf = NInf"
| "fneg NInf = PInf"
| "fneg NaN = NaN"

fun fadd :: "flt \<Rightarrow> flt \<Rightarrow> flt" where
  "fadd NaN _ = NaN"
| "fadd _ NaN = NaN"
| "fadd (Fin a) (Fin b) = Fin (a + b)"
| "fadd (Fin _) PInf = PInf"
| "fadd (Fin _) NInf = NInf"
| "fadd PInf (Fin _) = PInf"
| "fadd NInf (Fin _) = NInf"
| "fadd PInf PInf = PInf"
| "fadd NInf NInf = NInf"
| "fadd PInf NInf = NaN"
| "fadd NInf PInf = NaN"

definition fsub :: "flt \<Rightarrow> flt \<Rightarrow> flt" where
  "fsub a b = fadd a (fneg b)"

fun fmul :: "flt \<Rightarrow> flt \<Rightarrow> flt" where
  "fmul NaN _ = NaN"
| "fmul _ NaN = NaN"
| "fmul (Fin a) (Fin b) = Fin (a * b)"
| "fmul (Fin a) PInf = (if a = 0 then NaN else if 0 < a then PInf else NInf)"
| "fmul (Fin a) NInf = (if a = 0 then NaN else if 0 < a then NInf else PInf)"
| "fmul PInf (Fin b) = (if b = 0 then NaN else if 0 < b then PInf else NInf)"
| "fmul NInf (Fin b) = (if b = 0 then NaN else if 0 < b then NInf else PInf)"
| "fmul PInf PInf = PInf"
| "fmul NInf NInf = PInf"
| "fmul PInf NInf = NInf"
| "fmul NInf PInf = NInf"

fun fdiv :: "flt \<Rightarrow> flt \<Rightarrow> flt" where
  "fdiv NaN _ = NaN"
| "fdiv _ NaN = NaN"
| "fdiv (Fin a) (Fin b) =
     (if b = 0 then (if a = 0 then NaN else if 0 < a then PInf else NInf) else Fin (a / b))"
| "fdiv (Fin _) PInf = Fin 0"
| "fdiv (Fin _) NInf = Fin 0"
| "fdiv PInf (Fin b) = (if 0 \<le> b then PInf else NInf)"
| "fdiv NInf (Fin b) = (if 0 \<le> b then NInf else PInf)"
| "fdiv PInf PInf = NaN"
| "fdiv PInf NInf = NaN"
| "fdiv NInf PInf = NaN"
| "fdiv NInf NInf = NaN"

fun fsqrt :: "flt \<Rightarrow> flt" where
  "fsqrt (Fin a) = (if a < 0 then NaN else Fin (sqrt a))"
| "fsqrt PInf = PInf"
| "fsqrt NInf = NaN"
| "fsqrt NaN = NaN"

fun fexp :: "flt \<Rightarrow> flt" where
  "fexp (Fin a) =
     (if a < - (150 * ln 2) then Fin 0
      else if 128 * ln 2 < a then PInf
      else Fin (exp a))"
| "fexp PInf = PInf"
| "fexp NInf = Fin 0"
| "fexp NaN = NaN"

fun flog :: "flt \<Rightarrow> flt" where
  "flog (Fin a) = (if a < 0 then NaN else if a = 0 then NInf else Fin (ln a))"
| "flog PInf = PInf"
| "flog NInf = NaN"
| "flog NaN = NaN"

fun flog10 :: "flt \<Rightarrow> flt" where
  "flog10 (Fin a) = (if a < 0 then NaN else if a = 0 then NInf else Fin (log 10 a))"
| "flog10 PInf = PInf"
| "flog10 NInf = NaN"
| "flog10 NaN = NaN"

fun fless :: "flt \<Rightarrow> flt \<Rightarrow> bool" where
  "fless NaN _ = False"
| "fless _ NaN = False"
| "fless (Fin a) (Fin b) = (a < b)"
| "fless (Fin _) PInf = True"
| "fless (Fin _) NInf = False"
| "fless PInf _ = False"
| "fless NInf (Fin _) = True"
| "fless NInf PInf = True"
| "fless NInf NInf = False"

fun fle :: "flt \<Rightarrow> flt \<Rightarrow> bool" where
  "fle NaN _ = False"
| "fle _ NaN = False"
| "fle (Fin a) (Fin b) = (a \<le> b)"
| "fle (Fin _) PInf = True"
| "fle (Fin _) NInf = False"
| "fle PInf (Fin _) = False"
| "fle PInf PInf = True"
| "fle PInf NInf = False"
| "fle NInf _ = True"

text \<open>
  Conversions. \<open>of_size\<close> turns an unsigned integer into a float. \<open>to_int\<close> is the cast
  \<^verbatim>\<open>(int) x\<close>: truncation towards zero, undefined (\<open>None\<close>) for a value that is not finite or
  does not fit 32 bits. \<open>to_uint32\<close> is the conversion of an \<^verbatim>\<open>int\<close> to \<^verbatim>\<open>uint32_t\<close>.
\<close>

definition of_size :: "nat \<Rightarrow> flt" where
  "of_size n = Fin (real n)"

definition to_int :: "flt \<Rightarrow> int option" where
  "to_int x =
     (case x of
        Fin a \<Rightarrow>
          (let t = (if 0 \<le> a then \<lfloor>a\<rfloor> else \<lceil>a\<rceil>)
           in if - (2 ^ 31) \<le> t \<and> t < 2 ^ 31 then Some t else None)
      | _ \<Rightarrow> None)"

definition to_uint32 :: "int \<Rightarrow> nat" where
  "to_uint32 x = nat (x mod 2 ^ 32)"

section \<open>Counted loops\<close>

text \<open>
  \<^verbatim>\<open>for (i = lo; i < n; ++i) body\<close> on a state \<open>s\<close>; the body may fail.
\<close>

function for_upto :: "nat \<Rightarrow> nat \<Rightarrow> (nat \<Rightarrow> 's \<Rightarrow> 's option) \<Rightarrow> 's \<Rightarrow> 's option" where
  "for_upto i n body s =
     (if i < n
      then (case body i s of None \<Rightarrow> None | Some s' \<Rightarrow> for_upto (i + 1) n body s')
      else Some s)"
  by pat_completeness auto

termination
  by (relation "measure (\<lambda>(i, n, body, s). n - i)") auto

declare for_upto.simps [simp del]

section \<open>Settings, audio data and the pipeline object\<close>

text \<open>
  Modelled from the specification: the declarations of \<^verbatim>\<open>ProccessSettings\<close> and \<^verbatim>\<open>AudioData\<close>
  (\<^verbatim>\<open>Data.hpp\<close>) are not among the sources. The fields are the ones \<^verbatim>\<open>Proccess.cpp\<close> reads and
  writes, with the types of sections 3 and 6 of the specification: sizes are unsigned
  integers, amplitude and smoothing level are floats. The raw audio buffer holds finite
  samples (real numbers); the spectrum arrays and the volumes hold floats.
\<close>

record ProccessSettings =
  settings_channels :: nat
  settings_inputSize :: nat
  settings_outputSize :: nat
  settings_amplitude :: flt
  settings_smoothingLevel :: flt

record AudioData =
  buffer :: "real list"
  lBuffer :: "flt list"
  rBuffer :: "flt list"
  lVolume :: flt
  rVolume :: flt

text \<open>
  The members of \<^verbatim>\<open>ProccessImpl\<close>; \<open>implLBuffer\<close> and \<open>implRBuffer\<close> are its own arrays
  \<^verbatim>\<open>lBuffer\<close> and \<^verbatim>\<open>rBuffer\<close>.
\<close>

record ProccessImpl =
  implLBuffer :: "flt list"
  implRBuffer :: "flt list"
  inputSize :: nat
  channels :: nat
  amplitude :: flt
  wfCoeff :: flt
  smoothedSize :: nat
  smoothingFactor :: flt

text \<open>
  The constructor. The two arrays come from \<^verbatim>\<open>new float[capacity]\<close> and are not initialised:
  their first contents are the parameters \<open>lAlloc\<close> and \<open>rAlloc\<close>. \<open>inputSize - 1\<close> and
  \<open>inputSize * inputSize\<close> are \<open>size_t\<close> operations and wrap at \<open>2^64\<close>.
\<close>

definition newProccessImpl ::
  "ProccessSettings \<Rightarrow> (nat \<Rightarrow> flt) \<Rightarrow> (nat \<Rightarrow> flt) \<Rightarrow> ProccessImpl" where
  "newProccessImpl settings lAlloc rAlloc =
     (let capacity = max (settings_inputSize settings div 2) (settings_outputSize settings);
          inSize = settings_inputSize settings;
          outSize = settings_outputSize settings;
          level = settings_smoothingLevel settings
      in \<lparr> implLBuffer = map lAlloc [0..<capacity],
           implRBuffer = map rAlloc [0..<capacity],
           inputSize = inSize,
           channels = settings_channels settings,
           amplitude = settings_amplitude settings,
           wfCoeff = fdiv (Fin pi) (of_size ((inSize + 2 ^ 64 - 1) mod 2 ^ 64)),
           smoothedSize = outSize,
           smoothingFactor =
             fdiv (fmul (of_size ((inSize * inSize) mod 2 ^ 64)) (Fin 0.125))
                  (fmul (fmul (fmul level (of_size outSize)) level) (of_size outSize)) \<rparr>)"

section \<open>Windowing and the channel demultiplexer\<close>

text \<open>
  \<^verbatim>\<open>reinterpret_cast<std::complex<float>*>\<close>: consecutive floats are the real and imaginary
  parts of one complex sample.
\<close>

fun as_complex :: "real list \<Rightarrow> complex list" where
  "as_complex (re # im # rest) = Complex re im # as_complex rest"
| "as_complex _ = []"

fun as_floats :: "complex list \<Rightarrow> real list" where
  "as_floats [] = []"
| "as_floats (z # zs) = Re z # Im z # as_floats zs"

text \<open>
  \<^verbatim>\<open>windowFunction\<close>, on \<open>inputSize\<close> floats when there is one channel and on \<open>inputSize\<close>
  complex samples otherwise. The buffer holds finite samples only, so a window coefficient
  that is not finite (\<open>inputSize = 1\<close>) has no result here.
\<close>

definition window_real :: "real \<Rightarrow> nat \<Rightarrow> real list \<Rightarrow> real list option" where
  "window_real c n audio =
     (if n < length audio
      then Some (audio[n := audio ! n * (sin (c * real n)) ^ 2])
      else None)"

definition window_complex :: "real \<Rightarrow> nat \<Rightarrow> real list \<Rightarrow> real list option" where
  "window_complex c n audio =
     (if 2 * n + 1 < length audio
      then Some (audio[2 * n := audio ! (2 * n) * (sin (c * real n)) ^ 2,
                       2 * n + 1 := audio ! (2 * n + 1) * (sin (c * real n)) ^ 2])
      else None)"

definition windowFunction :: "ProccessImpl \<Rightarrow> AudioData \<Rightarrow> AudioData option" where
  "windowFunction impl audioData =
     (case wfCoeff impl of
        Fin c \<Rightarrow>
          (case for_upto 0 (inputSize impl)
                  (if channels impl = 1 then window_real c else window_complex c)
                  (buffer audioData) of
             None \<Rightarrow> None
           | Some audio \<Rightarrow> Some (audioData\<lparr>buffer := audio\<rparr>))
      | _ \<Rightarrow> None)"

text \<open>
  The two loop bodies of \<^verbatim>\<open>magnitudes\<close>, for one channel and for two.
\<close>

definition magnitudes_mono ::
  "nat \<Rightarrow> complex list \<Rightarrow> nat \<Rightarrow> flt list \<times> flt list \<Rightarrow> (flt list \<times> flt list) option" where
  "magnitudes_mono inSize input r bufs =
     (case bufs of (lb, rb) \<Rightarrow>
        if r < length input \<and> inSize div 2 - r < length input \<and> r < length lb \<and> r < length rb
        then (let F = 0.5 * (input ! r + cnj (input ! (inSize div 2 - r)));
                  G = Complex 0 0.5 * (cnj (input ! (inSize div 2 - r)) - input ! r);
                  w = exp (Complex 0 (- 2 * pi * real r / real inSize));
                  X = F + w * G;
                  lb' = lb[r := Fin (cmod X)]
              in Some (lb', rb[r := lb' ! r]))
        else None)"

definition magnitudes_stereo ::
  "nat \<Rightarrow> complex list \<Rightarrow> nat \<Rightarrow> flt list \<times> flt list \<Rightarrow> (flt list \<times> flt list) option" where
  "magnitudes_stereo inSize input i bufs =
     (case bufs of (lb, rb) \<Rightarrow>
        if i < length input \<and> inSize - i < length input \<and> i < length lb \<and> i < length rb
        then (let val = (input ! i + cnj (input ! (inSize - i))) * 0.5;
                  lb' = lb[i := Fin (cmod val)];
                  val' = Complex 0 0.5 * (cnj (input ! (inSize - i)) - input ! i)
              in Some (lb', rb[i := Fin (cmod val')]))
        else None)"

text \<open>
  \<^verbatim>\<open>magnitudes\<close>: the transform runs over \<open>inputSize / 2\<close> complex samples for one channel and
  over \<open>inputSize\<close> for two; the array handed to \<open>fft\<close> is the range \<^verbatim>\<open>input[0 .. size)\<close>, the
  rest of the buffer stays as it is. Then follow the loop over the bins from 1 and the two
  assignments to bin 0.
\<close>

definition fft_size :: "ProccessImpl \<Rightarrow> nat" where
  "fft_size impl = (if channels impl = 1 then inputSize impl div 2 else inputSize impl)"

definition magnitudes :: "ProccessImpl \<Rightarrow> AudioData \<Rightarrow> AudioData option" where
  "magnitudes impl audioData =
     (let input = as_complex (buffer audioData);
          sz = fft_size impl
      in if length input < sz then None
         else (case fft (take sz input) sz of
                 None \<Rightarrow> None
               | Some spectrum \<Rightarrow>
                   (let input' = spectrum @ drop sz input
                    in case for_upto 1 (inputSize impl div 2)
                              (if channels impl = 1
                               then magnitudes_mono (inputSize impl) input'
                               else magnitudes_stereo (inputSize impl) input')
                              (lBuffer audioData, rBuffer audioData) of
                         None \<Rightarrow> None
                       | Some (lb, rb) \<Rightarrow>
                           if 1 < length lb \<and> 1 < length rb
                           then (let lb' = lb[0 := rb ! 1];
                                     rb' = rb[0 := lb' ! 1]
                                 in Some (audioData
                                      \<lparr>buffer := as_floats input' @ drop (2 * length input) (buffer audioData),
                                       lBuffer := lb', rBuffer := rb'\<rparr>))
                           else None)))"

section \<open>Equaliser and volume\<close>

text \<open>
  \<^verbatim>\<open>equalise\<close>; \<open>eq_weight\<close> is the local \<^verbatim>\<open>weight\<close> of bin \<open>n\<close>.
\<close>

definition eq_weight :: "flt \<Rightarrow> nat \<Rightarrow> nat \<Rightarrow> flt" where
  "eq_weight amp inSize n =
     fmul (fmul (Fin 0.08) amp)
          (flog10 (fadd (fdiv (fmul (Fin 2) (of_size n)) (of_size inSize)) (Fin 1.05)))"

definition equalise_step ::
  "ProccessImpl \<Rightarrow> nat \<Rightarrow> flt list \<times> flt list \<Rightarrow> (flt list \<times> flt list) option" where
  "equalise_step impl n bufs =
     (case bufs of (lb, rb) \<Rightarrow>
        if n < length lb \<and> n < length rb
        then (let weight = eq_weight (amplitude impl) (inputSize impl) n
              in Some (lb[n := fmul (lb ! n) weight], rb[n := fmul (rb ! n) weight]))
        else None)"

definition equalise :: "ProccessImpl \<Rightarrow> AudioData \<Rightarrow> AudioData option" where
  "equalise impl audioData =
     (case for_upto 0 (inputSize impl div 2) (equalise_step impl)
             (lBuffer audioData, rBuffer audioData) of
        None \<Rightarrow> None
      | Some (lb, rb) \<Rightarrow> Some (audioData\<lparr>lBuffer := lb, rBuffer := rb\<rparr>))"

text \<open>
  \<^verbatim>\<open>std::accumulate(xs, xs + n, init)\<close> and \<^verbatim>\<open>calculateVolume\<close>.
\<close>

definition accumulate :: "flt list \<Rightarrow> nat \<Rightarrow> flt \<Rightarrow> flt option" where
  "accumulate xs n init = (if n \<le> length xs then Some (foldl fadd init (take n xs)) else None)"

definition calculateVolume :: "ProccessImpl \<Rightarrow> AudioData \<Rightarrow> AudioData option" where
  "calculateVolume impl audioData =
     (case accumulate (lBuffer audioData) (inputSize impl div 2) (Fin 0) of
        None \<Rightarrow> None
      | Some lsum \<Rightarrow>
          (case accumulate (rBuffer audioData) (inputSize impl div 2) (Fin 0) of
             None \<Rightarrow> None
           | Some rsum \<Rightarrow>
               Some (audioData\<lparr>lVolume := fdiv lsum (of_size (inputSize impl)),
                               rVolume := fdiv rsum (of_size (inputSize impl))\<rparr>)))"

section \<open>The kernel smoother\<close>

text \<open>
  \<^verbatim>\<open>kernelSmooth\<close>. \<open>kernel_weight\<close> is the local \<^verbatim>\<open>weight\<close> (the product \<^verbatim>\<open>j * smoothedSize\<close>
  is a \<open>size_t\<close> product), \<open>kernel_accumulate\<close> the body of the loop over \<open>j\<close>, \<open>kernel_radius\<close>
  the local \<^verbatim>\<open>radius\<close>, \<open>kernel_centre i\<close> the value \<^verbatim>\<open>i * oldSize / smoothedSize\<close>, and
  \<open>kernel_output\<close> the body of the loop over \<open>i\<close>, which ends with the two divisions by
  \<^verbatim>\<open>sum\<close>. The counter \<open>i\<close> is a \<^verbatim>\<open>uint32_t\<close> compared with a \<open>size_t\<close>: for 
  \<open>smoothedSize \<ge> 2^32\<close> the loop does not end. The function returns the pipeline object and
  the audio data after the two swaps.
\<close>

definition kernel_weight :: "ProccessImpl \<Rightarrow> nat \<Rightarrow> nat \<Rightarrow> flt" where
  "kernel_weight impl i j =
     (let oldSize = of_size (inputSize impl div 2);
          distance = fsub (of_size i) (fdiv (of_size ((j * smoothedSize impl) mod 2 ^ 64)) oldSize)
      in fexp (fmul (fmul (fneg distance) distance) (smoothingFactor impl)))"

definition kernel_accumulate ::
  "ProccessImpl \<Rightarrow> AudioData \<Rightarrow> nat \<Rightarrow> nat \<Rightarrow> flt list \<times> flt list \<times> flt
     \<Rightarrow> (flt list \<times> flt list \<times> flt) option" where
  "kernel_accumulate impl audioData i j st =
     (case st of (lb, rb, wsum) \<Rightarrow>
        if j < length (lBuffer audioData) \<and> j < length (rBuffer audioData)
           \<and> i < length lb \<and> i < length rb
        then (let weight = kernel_weight impl i j
              in Some (lb[i := fadd (lb ! i) (fmul (lBuffer audioData ! j) weight)],
                       rb[i := fadd (rb ! i) (fmul (rBuffer audioData ! j) weight)],
                       fadd wsum weight))
        else None)"

definition kernel_radius :: "ProccessImpl \<Rightarrow> flt" where
  "kernel_radius impl =
     fdiv (fmul (fsqrt (fdiv (fneg (flog (Fin 0.05))) (smoothingFactor impl)))
                (of_size (inputSize impl div 2)))
          (of_size (smoothedSize impl))"

definition kernel_centre :: "ProccessImpl \<Rightarrow> nat \<Rightarrow> flt" where
  "kernel_centre impl i =
     fdiv (fmul (of_size i) (of_size (inputSize impl div 2))) (of_size (smoothedSize impl))"

definition kernel_output ::
  "ProccessImpl \<Rightarrow> AudioData \<Rightarrow> nat \<Rightarrow> flt list \<times> flt list \<Rightarrow> (flt list \<times> flt list) option" where
  "kernel_output impl audioData i bufs =
     (case bufs of (lb, rb) \<Rightarrow>
        (case to_int (fsub (kernel_centre impl i) (kernel_radius impl)) of
           None \<Rightarrow> None
         | Some lo \<Rightarrow>
        (case to_int (of_size (inputSize impl div 2)) of
           None \<Rightarrow> None
         | Some old \<Rightarrow>
        (case to_int (fadd (kernel_centre impl i) (kernel_radius impl)) of
           None \<Rightarrow> None
         | Some hi \<Rightarrow>
             if i < length lb \<and> i < length rb
             then (case for_upto (to_uint32 (max 0 lo)) (to_uint32 (min old hi))
                          (kernel_accumulate impl audioData i)
                          (lb[i := Fin 0], rb[i := Fin 0], Fin 0) of
                     None \<Rightarrow> None
                   | Some (lb', rb', wsum) \<Rightarrow>
                       Some (lb'[i := fdiv (lb' ! i) wsum], rb'[i := fdiv (rb' ! i) wsum]))
             else None))))"

definition kernelSmooth :: "ProccessImpl \<Rightarrow> AudioData \<Rightarrow> (ProccessImpl \<times> AudioData) option" where
  "kernelSmooth impl audioData =
     (if 2 ^ 32 \<le> smoothedSize impl then None
      else (case for_upto 0 (smoothedSize impl) (kernel_output impl audioData)
                   (implLBuffer impl, implRBuffer impl) of
              None \<Rightarrow> None
            | Some (lb, rb) \<Rightarrow>
                Some (impl\<lparr>implLBuffer := lBuffer audioData, implRBuffer := rBuffer audioData\<rparr>,
                      audioData\<lparr>lBuffer := lb, rBuffer := rb\<rparr>)))"

definition smooth :: "ProccessImpl \<Rightarrow> AudioData \<Rightarrow> (ProccessImpl \<times> AudioData) option" where
  "smooth impl audioData = kernelSmooth impl audioData"

section \<open>The pipeline\<close>

text \<open>
  \<^verbatim>\<open>proccessSignal\<close>: the five stages in order, the last one unless the smoothing factor is
  NaN.
\<close>

definition proccessSignal :: "ProccessImpl \<Rightarrow> AudioData \<Rightarrow> (ProccessImpl \<times> AudioData) option" where
  "proccessSignal impl audioData =
     (case windowFunction impl audioData of
        None \<Rightarrow> None
      | Some a1 \<Rightarrow>
     (case magnitudes impl a1 of
        None \<Rightarrow> None
      | Some a2 \<Rightarrow>
     (case equalise impl a2 of
        None \<Rightarrow> None
      | Some a3 \<Rightarrow>
     (case calculateVolume impl a3 of
        None \<Rightarrow> None
      | Some a4 \<Rightarrow>
          if \<not> isnan (smoothingFactor impl) then smooth impl a4 else Some (impl, a4)))))"

section \<open>Real-valued description of the equaliser and the smoother\<close>

text \<open>
  The equaliser weight as a real number.
\<close>

definition weight_real :: "real \<Rightarrow> nat \<Rightarrow> nat \<Rightarrow> real" where
  "weight_real amp inSize n = 0.08 * amp * log 10 (2 * real n / real inSize + 1.05)"

text \<open>
  The quantities of \<^verbatim>\<open>kernelSmooth\<close> as real numbers, for a finite smoothing factor:
  radius, centre of window \<open>i\<close>, the two loop bounds \<^verbatim>\<open>min\<close> and \<^verbatim>\<open>max\<close>, the argument
  \<open>- distance\<^sup>2 * smoothingFactor\<close> of \<^verbatim>\<open>expf\<close>, the weight (zero when the exponential
  underflows), the sum of the weights of window \<open>i\<close>, and the value written to output \<open>i\<close>:
  the weighted mean when the weight sum is positive and \<open>0 / 0\<close> otherwise.
\<close>

definition trunc :: "real \<Rightarrow> int" where
  "trunc a = (if 0 \<le> a then \<lfloor>a\<rfloor> else \<lceil>a\<rceil>)"

fun fin_val :: "flt \<Rightarrow> real" where
  "fin_val (Fin a) = a"
| "fin_val _ = 0"


definition centre_val :: "ProccessImpl \<Rightarrow> nat \<Rightarrow> real" where
  "centre_val impl i = real i * real (inputSize impl div 2) / real (smoothedSize impl)"









section \<open>The magnitudes written by the demultiplexer\<close>

text \<open>
  The magnitude that the loop of \<^verbatim>\<open>magnitudes\<close> writes to bin \<open>r\<close>, as a function of the
  transformed frame: for one channel (both arrays get the same value), and for the left and
  the right channel of a stereo frame.
\<close>

definition mono_bin :: "nat \<Rightarrow> complex list \<Rightarrow> nat \<Rightarrow> real" where
  "mono_bin inSize spectrum r =
     (let F = 0.5 * (spectrum ! r + cnj (spectrum ! (inSize div 2 - r)));
          G = Complex 0 0.5 * (cnj (spectrum ! (inSize div 2 - r)) - spectrum ! r);
          w = exp (Complex 0 (- 2 * pi * real r / real inSize))
      in cmod (F + w * G))"

definition stereo_left_bin :: "nat \<Rightarrow> complex list \<Rightarrow> nat \<Rightarrow> real" where
  "stereo_left_bin inSize spectrum i = cmod ((spectrum ! i + cnj (spectrum ! (inSize - i))) * 0.5)"

definition stereo_right_bin :: "nat \<Rightarrow> complex list \<Rightarrow> nat \<Rightarrow> real" where
  "stereo_right_bin inSize spectrum i =
     cmod (Complex 0 0.5 * (cnj (spectrum ! (inSize - i)) - spectrum ! i))"

definition left_bin :: "ProccessImpl \<Rightarrow> complex list \<Rightarrow> nat \<Rightarrow> real" where
  "left_bin impl spectrum r =
     (if channels impl = 1 then mono_bin (inputSize impl) spectrum r
      else stereo_left_bin (inputSize impl) spectrum r)"

definition right_bin :: "ProccessImpl \<Rightarrow> complex list \<Rightarrow> nat \<Rightarrow> real" where
  "right_bin impl spectrum r =
     (if channels impl = 1 then mono_bin (inputSize impl) spectrum r
      else stereo_right_bin (inputSize impl) spectrum r)"

section \<open>Reference definitions from the specification\<close>

text \<open>
  The discrete Fourier transform as the specification defines it:
  \<open>X k = \<Sum> t < N. x t * exp (- 2 \<pi> i k t / N)\<close>.
\<close>

definition dft :: "complex list \<Rightarrow> complex list" where
  "dft x = map (\<lambda>k. \<Sum>t<length x. x ! t * exp (Complex 0 (- 2 * pi * real k * real t / real (length x))))
             [0..<length x]"



section \<open>Well-formed inputs\<close>

text \<open>
  A finite value that is not negative.
\<close>

definition magnitude_entry :: "flt \<Rightarrow> bool" where
  "magnitude_entry x = (case x of Fin v \<Rightarrow> 0 \<le> v | _ \<Rightarrow> False)"

text \<open>
  \<open>pipeline_ready\<close>: the window coefficient and the amplitude are finite, the amplitude is
  not negative, the transform size is a power of two below \<open>2^16\<close>, there are at least two
  bins, and the three arrays of the audio data are long enough. \<open>smoother_ready\<close>: the
  smoothing factor is finite and positive, the output size is positive and fits the loop
  counter, the window bounds fit an \<^verbatim>\<open>int\<close>, and the two arrays of the pipeline object hold
  the output.
\<close>

definition pipeline_ready :: "ProccessImpl \<Rightarrow> AudioData \<Rightarrow> bool" where
  "pipeline_ready impl a \<longleftrightarrow>
     isfinite (wfCoeff impl) \<and> isfinite (amplitude impl) \<and> 0 \<le> fin_val (amplitude impl)
     \<and> fft_size impl \<in> set (map (\<lambda>n. 2 ^ n) [0..<16])
     \<and> (if channels impl = 1 then inputSize impl else 2 * inputSize impl) \<le> length (buffer a)
     \<and> 2 \<le> inputSize impl div 2
     \<and> inputSize impl div 2 \<le> length (lBuffer a)
     \<and> inputSize impl div 2 \<le> length (rBuffer a)"


section \<open>Loop invariants and closed forms of the loops\<close>

text \<open>
  The arrays that the loops produce, written as list comprehensions; they state the loop
  invariants of the proofs. \<open>shuffle_inv x nb i\<close> is the array of the swap loop before
  iteration \<open>i\<close>.
\<close>

definition shuffle_inv :: "'a list \<Rightarrow> nat \<Rightarrow> nat \<Rightarrow> 'a list" where
  "shuffle_inv x nb i =
     map (\<lambda>t. if t < i \<or> reverseBits t nb < i then x ! reverseBits t nb else x ! t) [0..<2 ^ nb]"

text \<open>
  \<open>bfly\<close> is the array after the butterflies \<open>j, ..., h - 1\<close> of the block at \<open>k\<close>, \<open>stage\<close>
  the array after all blocks before \<open>k\<close>.
\<close>

definition bfly :: "complex list \<Rightarrow> nat \<Rightarrow> nat \<Rightarrow> complex \<Rightarrow> nat \<Rightarrow> complex \<Rightarrow> complex list" where
  "bfly a h k wm j w =
     map (\<lambda>p. if k + j \<le> p \<and> p < k + h then a ! p + w * wm ^ (p - (k + j)) * a ! (p + h)
              else if k + h + j \<le> p \<and> p < k + 2 * h then a ! (p - h) - w * wm ^ (p - (k + h + j)) * a ! p
              else a ! p) [0..<length a]"

definition stage :: "complex list \<Rightarrow> nat \<Rightarrow> complex \<Rightarrow> nat \<Rightarrow> complex list" where
  "stage a h wm k =
     map (\<lambda>p. if p < k then
                (if p mod (2 * h) < h then a ! p + wm ^ (p mod (2 * h)) * a ! (p + h)
                 else a ! (p - h) - wm ^ (p mod (2 * h) - h) * a ! p)
              else a ! p) [0..<length a]"

text \<open>
  \<open>twiddle m\<close> is the factor \<^verbatim>\<open>wm\<close> of stage \<open>m\<close>; \<open>dft_sum f m j\<close> is coefficient \<open>j\<close> of the
  transform of the \<open>m\<close> samples \<open>f 0, ..., f (m - 1)\<close>; \<open>stage_spec x n s\<close> is the array after
  the stages up to block size \<open>2^s\<close>: each block holds the transform of a strided subsequence
  of \<open>x\<close>.
\<close>

definition twiddle :: "nat \<Rightarrow> complex" where
  "twiddle m = exp (Complex 0 (- 2 * pi / real m))"

definition dft_sum :: "(nat \<Rightarrow> complex) \<Rightarrow> nat \<Rightarrow> nat \<Rightarrow> complex" where
  "dft_sum f m j = (\<Sum>t<m. f t * twiddle m ^ (j * t))"

definition stage_spec :: "complex list \<Rightarrow> nat \<Rightarrow> nat \<Rightarrow> complex list" where
  "stage_spec x n s =
     map (\<lambda>p. dft_sum (\<lambda>t. x ! (reverseBits (p div 2 ^ s) (n - s) + t * 2 ^ (n - s))) (2 ^ s) (p mod 2 ^ s))
       [0..<2 ^ n]"

text \<open>
  The invariant of the bin loop of \<^verbatim>\<open>magnitudes\<close>, the arrays of \<^verbatim>\<open>equalise\<close> after \<open>k\<close> bins,
  and the output arrays of \<^verbatim>\<open>kernelSmooth\<close> after \<open>k\<close> outputs (for a finite factor, and for an
  infinite one).
\<close>

definition magnitudes_inv ::
  "ProccessImpl \<Rightarrow> AudioData \<Rightarrow> complex list \<Rightarrow> nat \<Rightarrow> flt list \<times> flt list \<Rightarrow> bool" where
  "magnitudes_inv impl a input k bufs =
     (case bufs of (lb, rb) \<Rightarrow>
        length lb = length (lBuffer a) \<and> length rb = length (rBuffer a) \<and>
        (\<forall>r. 1 \<le> r \<and> r < k \<longrightarrow>
           lb ! r = Fin (left_bin impl input r) \<and> rb ! r = Fin (right_bin impl input r)))"

definition equalised :: "ProccessImpl \<Rightarrow> flt list \<Rightarrow> nat \<Rightarrow> flt list" where
  "equalised impl xs k =
     map (\<lambda>n. if n < k then fmul (xs ! n) (eq_weight (amplitude impl) (inputSize impl) n) else xs ! n)
       [0..<length xs]"


definition nan_filled :: "flt list \<Rightarrow> nat \<Rightarrow> flt list" where
  "nan_filled old k = replicate k NaN @ drop k old"

section \<open>A small configuration\<close>

text \<open>
  Two channels, 8 samples per window, 4 output values, gain 1, and a smoothing level left
  open; the pipeline object made from it with zeroed arrays; audio data with a given sample
  buffer and zeroed spectrum arrays, and audio data with given spectrum arrays.
\<close>

definition demo_settings :: "flt \<Rightarrow> ProccessSettings" where
  "demo_settings level =
     \<lparr> settings_channels = 2, settings_inputSize = 8, settings_outputSize = 4,
       settings_amplitude = Fin 1, settings_smoothingLevel = level \<rparr>"

definition demo_impl :: "flt \<Rightarrow> ProccessImpl" where
  "demo_impl level = newProccessImpl (demo_settings level) (\<lambda>_. Fin 0) (\<lambda>_. Fin 0)"

definition demo_mono_impl :: ProccessImpl where
  "demo_mono_impl = (demo_impl (Fin (1 / 2)))\<lparr>channels := 1\<rparr>"

definition demo_audio :: "real list \<Rightarrow> AudioData" where
  "demo_audio samples =
     \<lparr> buffer = samples, lBuffer = replicate 4 (Fin 0), rBuffer = replicate 4 (Fin 0),
       lVolume = Fin 0, rVolume = Fin 0 \<rparr>"

definition demo_spectrum :: "flt list \<Rightarrow> flt list \<Rightarrow> AudioData" where
  "demo_spectrum ls rs =
     \<lparr> buffer = replicate 16 0, lBuffer = ls, rBuffer = rs, lVolume = Fin 0, rVolume = Fin 0 \<rparr>"

text \<open>
  Audio data with a given sample buffer whose spectrum arrays are filled with a given value;
  a stereo frame whose left channel is a unit impulse and whose right channel is silent; a
  mono frame of constant samples; a stereo frame with a ramp in both channels.
\<close>

definition demo_frame :: "real list \<Rightarrow> flt \<Rightarrow> AudioData" where
  "demo_frame samples fill =
     \<lparr> buffer = samples, lBuffer = replicate 4 fill, rBuffer = replicate 4 fill,
       lVolume = Fin 0, rVolume = Fin 0 \<rparr>"

definition left_impulse_frame :: AudioData where
  "left_impulse_frame = demo_frame [1, 0, 0, 0, 0, 0, 0, 0, 0, 0, 0, 0, 0, 0, 0, 0] (Fin 9)"

definition constant_frame :: AudioData where
  "constant_frame = demo_frame [1, 1, 1, 1, 1, 1, 1, 1] (Fin 9)"


chapter \<open>Properties\<close>

section \<open>Bit reversal is an involution and the shuffle a permutation\<close>

lemma reverseBits_loop_bit:
  "i \<le> n \<Longrightarrow> bit (reverseBits_loop val n i r) j \<longleftrightarrow>
     (if j < n - i then bit val (n - 1 - j) else bit r (j - (n - i)))"
proof (induction val n i r arbitrary: j rule: reverseBits_loop.induct)
  case (1 val n i r)
  show ?case
  proof (cases "i < n")
    case True
    define r' where "r' = push_bit 1 r + (if val AND push_bit i 1 \<noteq> 0 then 1 else 0)"
    have r': "r' = push_bit 1 r + of_bool (bit val i)"
      by (simp add: r'_def bit_iff_and_push_bit_not_eq_0)
    have step: "bit r' k \<longleftrightarrow> (if k = 0 then bit val i else bit r (k - 1))" for k
      unfolding r' by (cases k) (simp_all add: bit_Suc bit_0)
    have "bit (reverseBits_loop val n i r) j = bit (reverseBits_loop val n (i + 1) r') j"
      using True unfolding r'_def by (subst reverseBits_loop.simps) simp
    also have "\<dots> = (if j < n - (i + 1) then bit val (n - 1 - j) else bit r' (j - (n - (i + 1))))"
      using True unfolding r'_def by (intro "1.IH") auto
    also have "\<dots> = (if j < n - i then bit val (n - 1 - j) else bit r (j - (n - i)))"
    proof (cases "j < n - (i + 1)")
      case True
      then have "j < n - i" by simp
      with True show ?thesis by simp
    next
      case False
      show ?thesis
      proof (cases "j = n - (i + 1)")
        case True
        with \<open>i < n\<close> have "n - 1 - j = i" "j < n - i" by simp_all
        with True show ?thesis by (simp add: step)
      next
        case False
        with \<open>\<not> j < n - (i + 1)\<close> have "n - i \<le> j" by simp
        with \<open>i < n\<close> have "j - (n - (i + 1)) - 1 = j - (n - i)" "j - (n - (i + 1)) \<noteq> 0"
          by simp_all
        with \<open>n - i \<le> j\<close> \<open>\<not> j < n - (i + 1)\<close> \<open>i < n\<close> show ?thesis by (simp add: step)
      qed
    qed
    finally show ?thesis .
  next
    case False
    with "1.prems" have "i = n" by simp
    then show ?thesis by (subst reverseBits_loop.simps) simp
  qed
qed

lemma bit_reverseBits: "bit (reverseBits val n) j \<longleftrightarrow> j < n \<and> bit val (n - 1 - j)"
  by (simp add: reverseBits_def reverseBits_loop_bit)

lemma reverseBits_less: "reverseBits val n < 2 ^ n"
proof -
  have "take_bit n (reverseBits val n) = reverseBits val n"
    by (rule bit_eqI) (auto simp add: bit_take_bit_iff bit_reverseBits)
  then show ?thesis
    by (metis take_bit_nat_less_exp)
qed

lemma reverseBits_involution:
  assumes "v < 2 ^ n"
  shows "reverseBits (reverseBits v n) n = v"
proof (rule bit_eqI)
  fix j
  have "bit v j \<Longrightarrow> j < n"
    using assms by (metis bit_take_bit_iff take_bit_nat_eq_self)
  then show "bit (reverseBits (reverseBits v n) n) j \<longleftrightarrow> bit v j"
    by (auto simp add: bit_reverseBits)
qed

lemma numBits_pow2: "k < 16 \<Longrightarrow> numBits (2 ^ k) = k"
proof -
  assume "k < 16"
  then consider "k = 0" | "k = 1" | "k = 2" | "k = 3" | "k = 4" | "k = 5" | "k = 6" | "k = 7"
    | "k = 8" | "k = 9" | "k = 10" | "k = 11" | "k = 12" | "k = 13" | "k = 14" | "k = 15"
    by (auto simp add: less_Suc_eq numeral_eq_Suc)
  then show ?thesis
    by cases (simp_all add: numBits_def)
qed

lemma shuffle_inv_step:
  assumes len: "length x = 2 ^ nb" and i: "i < 2 ^ nb"
  shows "(let a = shuffle_inv x nb i; j = reverseBits i nb
          in if i < j then a[i := a ! j, j := a ! i] else a) = shuffle_inv x nb (Suc i)"
proof -
  define r where "r t = reverseBits t nb" for t
  have rl: "r t < 2 ^ nb" for t by (simp add: r_def reverseBits_less)
  have rr: "t < 2 ^ nb \<Longrightarrow> r (r t) = t" for t by (simp add: r_def reverseBits_involution)
  have ri: "t < 2 ^ nb \<Longrightarrow> r t = i \<longleftrightarrow> t = r i" for t using rr i by auto
  define a where "a = shuffle_inv x nb i"
  have la: "length a = 2 ^ nb" by (simp add: a_def shuffle_inv_def)
  have at: "a ! t = (if t < i \<or> r t < i then x ! r t else x ! t)" if "t < 2 ^ nb" for t
    using that by (simp add: a_def shuffle_inv_def r_def)
  have "(if i < r i then a[i := a ! r i, r i := a ! i] else a) = shuffle_inv x nb (Suc i)"
  proof (rule nth_equalityI)
    show "length (if i < r i then a[i := a ! r i, r i := a ! i] else a) = length (shuffle_inv x nb (Suc i))"
      by (simp add: la shuffle_inv_def)
  next
    fix t assume "t < length (if i < r i then a[i := a ! r i, r i := a ! i] else a)"
    then have t: "t < 2 ^ nb" by (simp add: la split: if_splits)
    have rhs: "shuffle_inv x nb (Suc i) ! t = (if t < Suc i \<or> r t < Suc i then x ! r t else x ! t)"
      using t by (simp add: shuffle_inv_def r_def)
    show "(if i < r i then a[i := a ! r i, r i := a ! i] else a) ! t = shuffle_inv x nb (Suc i) ! t"
    proof (cases "i < r i")
      case True
      have "a[i := a ! r i, r i := a ! i] ! t =
              (if t = r i then a ! i else if t = i then a ! r i else a ! t)"
        using t i rl[of i] by (simp add: la nth_list_update)
      also have "\<dots> = (if t < Suc i \<or> r t < Suc i then x ! r t else x ! t)"
        using True t i rl[of i] rr[of i] ri[of t] rr[of t]
        by (auto simp add: at less_Suc_eq)
      finally show ?thesis using True rhs by simp
    next
      case False
      have "a ! t = (if t < Suc i \<or> r t < Suc i then x ! r t else x ! t)"
        using False t i rl[of i] rr[of i] ri[of t] rr[of t]
        by (auto simp add: at less_Suc_eq)
      then show ?thesis using False rhs by simp
    qed
  qed
  then show ?thesis unfolding a_def r_def Let_def .
qed

lemma shuffle_loop_inv:
  assumes len: "length x = 2 ^ nb"
  shows "i \<le> 2 ^ nb \<Longrightarrow>
         shuffle_loop (shuffle_inv x nb i) (2 ^ nb) nb i = Some (map (\<lambda>t. x ! reverseBits t nb) [0..<2 ^ nb])"
proof (induction "2 ^ nb - i" arbitrary: i)
  case 0
  then have "i = 2 ^ nb" by simp
  moreover have "shuffle_inv x nb (2 ^ nb) = map (\<lambda>t. x ! reverseBits t nb) [0..<2 ^ nb]"
    by (simp add: shuffle_inv_def)
  ultimately show ?case by (subst shuffle_loop.simps) simp
next
  case (Suc d)
  then have i: "i < 2 ^ nb" by simp
  have IH: "shuffle_loop (shuffle_inv x nb (Suc i)) (2 ^ nb) nb (Suc i) =
            Some (map (\<lambda>t. x ! reverseBits t nb) [0..<2 ^ nb])"
    using Suc by (intro Suc.hyps) auto
  have la: "length (shuffle_inv x nb i) = 2 ^ nb" by (simp add: shuffle_inv_def)
  have rl: "reverseBits i nb < 2 ^ nb" by (rule reverseBits_less)
  show ?case
    using shuffle_inv_step[OF len i] IH i rl
    by (subst shuffle_loop.simps) (simp add: Let_def la split: if_splits)
qed

lemma shuffle_inv_0: "length x = 2 ^ nb \<Longrightarrow> shuffle_inv x nb 0 = x"
  by (auto simp add: shuffle_inv_def intro!: nth_equalityI)

lemma bitReverseShuffle_eq:
  assumes "k < 16" "length x = 2 ^ k"
  shows "bitReverseShuffle x (2 ^ k) = Some (map (\<lambda>t. x ! reverseBits t k) [0..<2 ^ k])"
  using shuffle_loop_inv[OF assms(2), of 0] assms
  by (simp add: bitReverseShuffle_def numBits_pow2 shuffle_inv_0)

lemma reverseBits_bij: "bij_betw (\<lambda>t. reverseBits t k) {..<2 ^ k} {..<2 ^ k}"
  by (rule bij_betw_byWitness[where f' = "\<lambda>t. reverseBits t k"])
     (auto simp add: reverseBits_involution reverseBits_less)

lemma mset_reverse_perm:
  assumes "length x = 2 ^ k"
  shows "mset (map (\<lambda>t. x ! reverseBits t k) [0..<2 ^ k]) = mset x"
proof -
  have "mset (map (\<lambda>t. x ! reverseBits t k) [0..<2 ^ k]) =
        image_mset ((!) x) (image_mset (\<lambda>t. reverseBits t k) (mset [0..<2 ^ k]))"
    by (simp add: multiset.map_comp comp_def)
  also have "image_mset (\<lambda>t. reverseBits t k) (mset [0..<2 ^ k]) = mset [0..<2 ^ k]"
  proof -
    have "image_mset (\<lambda>t. reverseBits t k) (mset_set {..<2 ^ k}) = mset_set {..<2 ^ k}"
      using image_mset_mset_set[OF bij_betw_imp_inj_on[OF reverseBits_bij[of k]]]
        bij_betw_imp_surj_on[OF reverseBits_bij[of k]] by simp
    then show ?thesis by (simp add: lessThan_atLeast0)
  qed
  also have "image_mset ((!) x) (mset [0..<2 ^ k]) = mset x"
    using assms by (metis map_nth mset_map)
  finally show ?thesis .
qed

section \<open>The transform loops\<close>

lemma bfly_done: "bfly a h k wm h w = a"
  by (auto simp add: bfly_def intro!: nth_equalityI)

lemma bfly_step:
  assumes "j < h" "k + 2 * h \<le> length a"
  shows "bfly (a[k + j := a ! (k + j) + w * a ! (k + j + h), k + j + h := a ! (k + j) - w * a ! (k + j + h)])
           h k wm (Suc j) (w * wm) = bfly a h k wm j w"
proof (rule nth_equalityI)
  show "length (bfly (a[k + j := a ! (k + j) + w * a ! (k + j + h), k + j + h := a ! (k + j) - w * a ! (k + j + h)])
           h k wm (Suc j) (w * wm)) = length (bfly a h k wm j w)"
    by (simp add: bfly_def)
next
  fix p
  assume "p < length (bfly (a[k + j := a ! (k + j) + w * a ! (k + j + h), k + j + h := a ! (k + j) - w * a ! (k + j + h)])
           h k wm (Suc j) (w * wm))"
  then have p: "p < length a" by (simp add: bfly_def)
  have pw: "p - (k + j) = Suc (p - (k + Suc j))" if "k + Suc j \<le> p" for p
    using that by simp
  have pw2: "p - (k + h + j) = Suc (p - (k + h + Suc j))" if "k + h + Suc j \<le> p" for p
    using that by simp
  consider "p < k + j" | "p = k + j" | "k + j < p" "p < k + h" | "k + h \<le> p" "p < k + h + j"
    | "p = k + h + j" | "k + h + j < p" "p < k + 2 * h" | "k + 2 * h \<le> p"
    by linarith
  then show "bfly (a[k + j := a ! (k + j) + w * a ! (k + j + h), k + j + h := a ! (k + j) - w * a ! (k + j + h)])
           h k wm (Suc j) (w * wm) ! p = bfly a h k wm j w ! p"
  proof cases
    case 3
    then show ?thesis using p assms by (simp add: bfly_def nth_list_update pw)
  next
    case 6
    then show ?thesis using p assms by (simp add: bfly_def nth_list_update pw2)
  qed (use p assms in \<open>simp_all add: bfly_def nth_list_update add.commute add.left_commute\<close>)
qed

lemma fft_butterflies_eq:
  "j \<le> h \<Longrightarrow> k + 2 * h \<le> length a \<Longrightarrow>
   fft_butterflies a (2 * h) k wm j w = Some (bfly a h k wm j w)"
proof (induction "h - j" arbitrary: j a w)
  case 0
  then show ?case by (subst fft_butterflies.simps) (simp add: bfly_done)
next
  case (Suc d)
  then have j: "j < h" by simp
  have len: "k + 2 * h \<le> length a" by (rule Suc.prems)
  have idx: "k + j + h < length a" using j len by simp
  define a' where "a' = a[k + j := a ! (k + j) + w * a ! (k + j + h),
                          k + j + h := a ! (k + j) - w * a ! (k + j + h)]"
  have "fft_butterflies a (2 * h) k wm j w = fft_butterflies a' (2 * h) k wm (j + 1) (w * wm)"
    using j idx unfolding a'_def by (subst fft_butterflies.simps) (simp add: Let_def)
  also have "\<dots> = Some (bfly a' h k wm (Suc j) (w * wm))"
    using Suc.hyps(2) j len by (simp add: a'_def Suc.hyps(1))
  also have "bfly a' h k wm (Suc j) (w * wm) = bfly a h k wm j w"
    unfolding a'_def using j len by (rule bfly_step)
  finally show ?case .
qed

lemma bfly_nth:
  "p < length a \<Longrightarrow> bfly a h k wm j w ! p =
     (if k + j \<le> p \<and> p < k + h then a ! p + w * wm ^ (p - (k + j)) * a ! (p + h)
      else if k + h + j \<le> p \<and> p < k + 2 * h then a ! (p - h) - w * wm ^ (p - (k + h + j)) * a ! p
      else a ! p)"
  by (simp add: bfly_def)

lemma stage_nth:
  "p < length a \<Longrightarrow> stage a h wm k ! p =
     (if p < k then
        (if p mod (2 * h) < h then a ! p + wm ^ (p mod (2 * h)) * a ! (p + h)
         else a ! (p - h) - wm ^ (p mod (2 * h) - h) * a ! p)
      else a ! p)"
  by (simp add: stage_def)

lemma length_stage [simp]: "length (stage a h wm k) = length a"
  by (simp add: stage_def)

lemma length_bfly [simp]: "length (bfly a h k wm j w) = length a"
  by (simp add: bfly_def)

lemma stage_0: "stage a h wm 0 = a"
  by (auto simp add: stage_def intro!: nth_equalityI)

lemma stage_step:
  assumes h: "0 < h" and k: "(2 * h) dvd k" and len: "k + 2 * h \<le> length x"
  shows "bfly (stage x h wm k) h k wm 0 1 = stage x h wm (k + 2 * h)"
proof (rule nth_equalityI)
  show "length (bfly (stage x h wm k) h k wm 0 1) = length (stage x h wm (k + 2 * h))"
    by (simp add: bfly_def stage_def)
next
  fix p assume "p < length (bfly (stage x h wm k) h k wm 0 1)"
  then have p: "p < length x" by (simp add: bfly_def stage_def)
  obtain c where c: "k = 2 * h * c" using k by (auto simp: dvd_def)
  have md: "p mod (2 * h) = p - k" if "k \<le> p" "p < k + 2 * h"
  proof -
    have "p = (p - k) + c * (2 * h)" using that c by simp
    then have "p mod (2 * h) = (p - k) mod (2 * h)" by (metis mod_mult_self1)
    then show ?thesis using that by simp
  qed
  consider "p < k" | "k \<le> p" "p < k + h" | "k + h \<le> p" "p < k + 2 * h" | "k + 2 * h \<le> p"
    by linarith
  then show "bfly (stage x h wm k) h k wm 0 1 ! p = stage x h wm (k + 2 * h) ! p"
  proof cases
    case 1
    then show ?thesis using p by (simp add: bfly_nth stage_nth)
  next
    case 2
    then have m: "p mod (2 * h) = p - k" "p - k < h" using md by auto
    have "p + h < length x" using 2 len by simp
    then show ?thesis using 2 p m by (simp add: bfly_nth stage_nth)
  next
    case 3
    then have m: "p mod (2 * h) = p - k" "\<not> p - k < h" using md by auto
    have e: "p - k - h = p - (k + h)" by simp
    have "p - h < length x" "\<not> p - h < k" "\<not> p < k" using 3 p h by simp_all
    then show ?thesis using 3 p m by (simp add: bfly_nth stage_nth e)
  next
    case 4
    then show ?thesis using p by (simp add: bfly_nth stage_nth)
  qed
qed

lemma fft_blocks_eq:
  assumes h: "0 < h" and len: "length x = 2 * h * c" and small: "length x < 2 ^ 63"
  shows "b \<le> c \<Longrightarrow>
         fft_blocks (stage x h wm (2 * h * b)) (length x) (2 * h) wm (2 * h * b)
           = Some (stage x h wm (length x))"
proof (induction "c - b" arbitrary: b)
  case 0
  then have "b = c" by simp
  then show ?case using len by (subst fft_blocks.simps) simp
next
  case (Suc d)
  then have b: "b < c" by simp
  then have "2 * h * Suc b \<le> 2 * h * c"
    by (intro mult_le_mono2) simp
  then have "2 * h * b + 2 * h \<le> 2 * h * c" by simp
  then have le: "2 * h * b + 2 * h \<le> length x" using len by simp
  have lt: "2 * h * b < length x" using le h by simp
  have md: "(2 * h * b + 2 * h) mod 2 ^ 64 = 2 * h * Suc b"
    using le small by simp
  have IH: "fft_blocks (stage x h wm (2 * h * Suc b)) (length x) (2 * h) wm (2 * h * Suc b)
           = Some (stage x h wm (length x))"
    using Suc.hyps(2) b by (intro Suc.hyps(1)) auto
  have ls: "length (stage x h wm (2 * h * b)) = length x" by (simp add: stage_def)
  have bf: "fft_butterflies (stage x h wm (2 * h * b)) (2 * h) (2 * h * b) wm 0 1
            = Some (stage x h wm (2 * h * Suc b))"
    using fft_butterflies_eq[where j = 0 and h = h and k = "2 * h * b" and wm = wm and w = 1
          and a = "stage x h wm (2 * h * b)"]
      stage_step[OF h _ le, of wm] le ls by (simp add: add.commute)
  show ?case
    using lt by (subst fft_blocks.simps) (simp only: ls bf md IH option.case if_True)
qed

section \<open>Twiddle factors and the radix-2 step\<close>

lemma twiddle_cis: "twiddle m = cis (- 2 * pi / real m)"
  by (simp add: twiddle_def cis_conv_exp complex_eq_iff Complex_eq)

lemma twiddle_pow: "twiddle m ^ k = cis (- 2 * pi * real k / real m)"
  by (simp add: twiddle_cis DeMoivre mult.commute)

lemma twiddle_double_sq: "0 < h \<Longrightarrow> twiddle (2 * h) ^ (2 * k) = twiddle h ^ k"
  by (simp add: twiddle_pow mult_ac)

lemma twiddle_half: "0 < h \<Longrightarrow> twiddle (2 * h) ^ h = - 1"
  by (simp add: twiddle_pow complex_eq_iff)

lemma twiddle_full: "0 < m \<Longrightarrow> twiddle m ^ (m * k) = 1"
proof -
  assume "0 < m"
  then have "twiddle m ^ (m * k) = cis (- (2 * pi * real k))"
    by (simp add: twiddle_pow mult_ac)
  also have "\<dots> = cnj (cis (real k * (2 * pi)))"
    by (simp add: cis_cnj mult_ac)
  also have "\<dots> = cnj (cis (2 * pi) ^ k)"
    by (simp only: DeMoivre)
  also have "\<dots> = 1" by simp
  finally show ?thesis .
qed

lemma sum_even_odd:
  fixes g :: "nat \<Rightarrow> complex"
  shows "(\<Sum>t<2 * h. g t) = (\<Sum>t<h. g (2 * t)) + (\<Sum>t<h. g (2 * t + 1))"
  by (induction h) (simp_all add: algebra_simps)

lemma dft_radix2_lo:
  assumes "0 < h"
  shows "dft_sum f (2 * h) j =
         dft_sum (\<lambda>t. f (2 * t)) h j + twiddle (2 * h) ^ j * dft_sum (\<lambda>t. f (2 * t + 1)) h j"
proof -
  have e: "twiddle (2 * h) ^ (j * (2 * t)) = twiddle h ^ (j * t)" for t
    using twiddle_double_sq[OF assms, of "j * t"] by (simp add: mult.left_commute)
  have o: "twiddle (2 * h) ^ (j * (2 * t + 1)) = twiddle (2 * h) ^ j * twiddle h ^ (j * t)" for t
    using e[of t] by (simp add: power_add distrib_left mult.commute)
  show ?thesis
    unfolding dft_sum_def sum_even_odd e o
    by (simp add: sum_distrib_left mult_ac)
qed

lemma dft_radix2_hi:
  assumes "0 < h"
  shows "dft_sum f (2 * h) (j + h) =
         dft_sum (\<lambda>t. f (2 * t)) h j - twiddle (2 * h) ^ j * dft_sum (\<lambda>t. f (2 * t + 1)) h j"
proof -
  have p: "twiddle h ^ ((j + h) * t) = twiddle h ^ (j * t)" for t
    using twiddle_full[OF assms, of t] by (simp add: power_add distrib_right)
  have "dft_sum (\<lambda>t. f (2 * t)) h (j + h) = dft_sum (\<lambda>t. f (2 * t)) h j"
    "dft_sum (\<lambda>t. f (2 * t + 1)) h (j + h) = dft_sum (\<lambda>t. f (2 * t + 1)) h j"
    by (simp_all add: dft_sum_def p)
  moreover have "twiddle (2 * h) ^ (j + h) = - (twiddle (2 * h) ^ j)"
    by (simp add: power_add twiddle_half[OF assms])
  ultimately show ?thesis
    using dft_radix2_lo[OF assms, of f "j + h"] by simp
qed

section \<open>The stages compute the transform\<close>

lemma length_stage_spec [simp]: "length (stage_spec x n s) = 2 ^ n"
  by (simp add: stage_spec_def)

lemma stage_spec_nth:
  "p < 2 ^ n \<Longrightarrow> stage_spec x n s ! p =
     dft_sum (\<lambda>t. x ! (reverseBits (p div 2 ^ s) (n - s) + t * 2 ^ (n - s))) (2 ^ s) (p mod 2 ^ s)"
  by (simp add: stage_spec_def)

lemma reverseBits_double: "reverseBits (2 * b) (Suc d) = reverseBits b d"
proof (rule bit_eqI)
  fix j
  show "bit (reverseBits (2 * b) (Suc d)) j = bit (reverseBits b d) j"
  proof (cases "j < d")
    case True
    then have "d - j = Suc (d - 1 - j)" by simp
    then show ?thesis using True by (simp add: bit_reverseBits bit_double_iff)
  next
    case False
    then show ?thesis by (auto simp add: bit_reverseBits bit_double_iff)
  qed
qed

lemma reverseBits_double_Suc: "reverseBits (2 * b + 1) (Suc d) = 2 ^ d + reverseBits b d"
proof -
  have disj: "\<not> bit ((2::nat) ^ d) j \<or> \<not> bit (reverseBits b d) j" for j
    by (auto simp add: bit_exp_iff bit_reverseBits)
  have "2 ^ d + reverseBits b d = 2 ^ d OR reverseBits b d"
    using disj by (rule disjunctive_add)
  also have "\<dots> = reverseBits (2 * b + 1) (Suc d)"
  proof (rule bit_eqI)
    fix j
    show "bit (2 ^ d OR reverseBits b d) j = bit (reverseBits (2 * b + 1) (Suc d)) j"
    proof (cases "j < d")
      case True
      then have "d - j = Suc (d - 1 - j)" by simp
      then show ?thesis using True
        by (simp add: bit_reverseBits bit_or_iff bit_exp_iff bit_Suc)
    next
      case False
      then show ?thesis
        by (auto simp add: bit_reverseBits bit_or_iff bit_exp_iff bit_0)
    qed
  qed
  finally show ?thesis by simp
qed

lemma reverseBits_zero_bits: "reverseBits v 0 = 0"
  by (rule bit_eqI) (simp add: bit_reverseBits)

lemma stage_spec_step:
  assumes s: "s < n" and len: "length x = 2 ^ n"
  shows "stage (stage_spec x n s) (2 ^ s) (twiddle (2 * 2 ^ s)) (2 ^ n) = stage_spec x n (Suc s)"
proof (rule nth_equalityI)
  show "length (stage (stage_spec x n s) (2 ^ s) (twiddle (2 * 2 ^ s)) (2 ^ n)) = length (stage_spec x n (Suc s))"
    by simp
next
  fix p assume "p < length (stage (stage_spec x n s) (2 ^ s) (twiddle (2 * 2 ^ s)) (2 ^ n))"
  then have p: "p < 2 ^ n" by simp
  define h :: nat where "h = 2 ^ s"
  define d where "d = n - Suc s"
  define b where "b = p div (2 * h)"
  define q where "q = p mod (2 * h)"
  define f where "f = (\<lambda>t. x ! (reverseBits b d + t * 2 ^ d))"
  have h: "0 < h" by (simp add: h_def)
  have ns: "n - s = Suc d" using s by (simp add: d_def)
  have n: "(2::nat) ^ n = 2 * h * 2 ^ d"
    using s by (simp add: h_def d_def flip: power_add power_Suc) 
  have pq: "p = b * (2 * h) + q" by (simp only: b_def q_def div_mult_mod_eq)
  have q: "q < 2 * h" using h by (simp add: q_def)
  have b: "b < 2 ^ d" using p n h by (simp add: b_def less_mult_imp_div_less mult.commute)
  have "Suc b * (2 * h) \<le> 2 ^ d * (2 * h)" using b by (intro mult_le_mono1) simp
  then have blk: "b * (2 * h) + 2 * h \<le> 2 ^ n" by (simp add: n mult_ac)
  have ev: "(\<lambda>t. x ! (reverseBits (2 * b) (Suc d) + t * 2 ^ Suc d)) = (\<lambda>t. f (2 * t))"
    unfolding f_def reverseBits_double by (simp add: mult_ac)
  have od: "(\<lambda>t. x ! (reverseBits (2 * b + 1) (Suc d) + t * 2 ^ Suc d)) = (\<lambda>t. f (2 * t + 1))"
    unfolding f_def reverseBits_double_Suc by (simp add: algebra_simps)
  have E: "stage_spec x n s ! (2 * b * h + r) = dft_sum (\<lambda>t. f (2 * t)) h r"
    if "r < h" "2 * b * h + r < 2 ^ n" for r
  proof -
    have "(2 * b * h + r) div h = 2 * b + r div h"
      using h by (intro div_mult_self3) simp
    then have "(2 * b * h + r) div h = 2 * b" using that by simp
    moreover have "(2 * b * h + r) mod h = r"
      using that by (simp only: mod_mult_self3 mod_less)
    ultimately show ?thesis
      using that(2) unfolding stage_spec_nth[OF that(2)] ns h_def[symmetric] by (simp only: ev)
  qed
  have O: "stage_spec x n s ! ((2 * b + 1) * h + r) = dft_sum (\<lambda>t. f (2 * t + 1)) h r"
    if "r < h" "(2 * b + 1) * h + r < 2 ^ n" for r
  proof -
    have "((2 * b + 1) * h + r) div h = (2 * b + 1) + r div h"
      using h by (intro div_mult_self3) simp
    then have "((2 * b + 1) * h + r) div h = 2 * b + 1" using that by simp
    moreover have "((2 * b + 1) * h + r) mod h = r"
      using that by (simp only: mod_mult_self3 mod_less)
    ultimately show ?thesis
      using that(2) unfolding stage_spec_nth[OF that(2)] ns h_def[symmetric] by (simp only: od)
  qed
  have R: "stage_spec x n (Suc s) ! p = dft_sum f (2 * h) q"
    using p by (simp add: stage_spec_nth f_def b_def q_def h_def d_def)
  show "stage (stage_spec x n s) (2 ^ s) (twiddle (2 * 2 ^ s)) (2 ^ n) ! p = stage_spec x n (Suc s) ! p"
  proof (cases "q < h")
    case True
    have 1: "p = 2 * b * h + q" using pq by (simp add: mult_ac)
    have 2: "p + h = (2 * b + 1) * h + q" using pq by (simp add: algebra_simps)
    have 3: "p + h < 2 ^ n" using blk pq True by simp
    have "stage (stage_spec x n s) h (twiddle (2 * h)) (2 ^ n) ! p =
          stage_spec x n s ! p + twiddle (2 * h) ^ q * stage_spec x n s ! (p + h)"
      using p True by (simp add: stage_nth q_def)
    also have "\<dots> = dft_sum (\<lambda>t. f (2 * t)) h q + twiddle (2 * h) ^ q * dft_sum (\<lambda>t. f (2 * t + 1)) h q"
      using E[of q] O[of q] True p 3 unfolding 1[symmetric] 2[symmetric] by simp
    also have "\<dots> = dft_sum f (2 * h) q" by (simp add: dft_radix2_lo[OF h])
    finally show ?thesis by (simp add: R h_def)
  next
    case False
    define r where "r = q - h"
    have r: "r < h" "q = r + h" using False q by (simp_all add: r_def)
    have 1: "p - h = 2 * b * h + r" using pq r by (simp add: mult_ac)
    have 2: "p = (2 * b + 1) * h + r" using pq r by (simp add: algebra_simps)
    have 3: "p - h < 2 ^ n" using p by simp
    have "stage (stage_spec x n s) h (twiddle (2 * h)) (2 ^ n) ! p =
          stage_spec x n s ! (p - h) - twiddle (2 * h) ^ r * stage_spec x n s ! p"
      using p False by (simp add: stage_nth q_def r_def)
    also have "\<dots> = dft_sum (\<lambda>t. f (2 * t)) h r - twiddle (2 * h) ^ r * dft_sum (\<lambda>t. f (2 * t + 1)) h r"
      using E[of r] O[of r] r p 3 unfolding 1[symmetric] 2[symmetric] by simp
    also have "\<dots> = dft_sum f (2 * h) q" unfolding r(2) by (simp add: dft_radix2_hi[OF h])
    finally show ?thesis by (simp add: R h_def)
  qed
qed

lemma exp_twiddle: "exp (Complex 0 (- 2 * pi * real k * real t / real m)) = twiddle m ^ (k * t)"
  by (simp add: twiddle_pow cis_conv_exp complex_eq_iff Complex_eq mult_ac)

lemma dft_eq_dft_sum: "dft x = map (\<lambda>k. dft_sum (\<lambda>t. x ! t) (length x) k) [0..<length x]"
  unfolding dft_def dft_sum_def exp_twiddle ..

lemma stage_spec_0:
  assumes "length x = 2 ^ n"
  shows "stage_spec x n 0 = map (\<lambda>t. x ! reverseBits t n) [0..<2 ^ n]"
  by (simp add: stage_spec_def dft_sum_def)

lemma stage_spec_final:
  assumes "length x = 2 ^ n"
  shows "stage_spec x n n = dft x"
  unfolding dft_eq_dft_sum stage_spec_def using assms
  by (simp add: reverseBits_zero_bits)

lemma fft_stages_eq:
  assumes len: "length x = 2 ^ n" and n: "n < 16"
  shows "s \<le> n \<Longrightarrow> fft_stages (stage_spec x n s) (2 ^ n) (2 ^ Suc s) = Some (dft x)"
proof (induction "n - s" arbitrary: s)
  case 0
  then have "s = n" by simp
  then show ?case
    using stage_spec_final[OF len] by (subst fft_stages.simps) simp
next
  case (Suc d)
  then have s: "s < n" by simp
  have le: "(2::nat) ^ Suc s \<le> 2 ^ n" using s by (intro power_increasing) simp_all
  have n2: "(2::nat) ^ n = 2 * 2 ^ s * 2 ^ (n - Suc s)"
    using s by (simp flip: power_add power_Suc)
  have "(2::nat) ^ n < 2 ^ 16" using n by (intro power_strict_increasing) simp_all
  then have small: "(2::nat) ^ n < 2 ^ 63" by simp
  have dbl: "(2 * 2 ^ Suc s) mod 2 ^ 64 = (2::nat) ^ Suc (Suc s)"
    using le small by simp
  have blocks: "fft_blocks (stage_spec x n s) (2 ^ n) (2 ^ Suc s) (twiddle (2 ^ Suc s)) 0
                = Some (stage_spec x n (Suc s))"
    using fft_blocks_eq[where x = "stage_spec x n s" and h = "2 ^ s" and c = "2 ^ (n - Suc s)"
        and b = 0 and wm = "twiddle (2 * 2 ^ s)"] n2 small stage_spec_step[OF s len]
    by (simp add: stage_0)
  have IH: "fft_stages (stage_spec x n (Suc s)) (2 ^ n) (2 ^ Suc (Suc s)) = Some (dft x)"
    using Suc.hyps(2) s by (intro Suc.hyps(1)) auto
  show ?case
    using le by (subst fft_stages.simps) (simp only: twiddle_def[symmetric] blocks dbl IH option.case if_True)
qed

lemma fft_eq_dft:
  assumes "n < 16" "length x = 2 ^ n"
  shows "fft x (2 ^ n) = Some (dft x)"
  using bitReverseShuffle_eq[OF assms] fft_stages_eq[OF assms(2,1), of 0] stage_spec_0[OF assms(2)]
  by (simp add: fft_def)

section \<open>The smoother loops\<close>

lemma for_upto_done: "n \<le> i \<Longrightarrow> for_upto i n body s = Some s"
  by (subst for_upto.simps) simp

lemma for_upto_step:
  "i < n \<Longrightarrow> body i s = Some s' \<Longrightarrow> for_upto i n body s = for_upto (Suc i) n body s'"
  by (subst for_upto.simps) simp

lemma for_upto_invariant:
  assumes step: "\<And>k t. lo \<le> k \<Longrightarrow> k < n \<Longrightarrow> I k t \<Longrightarrow> \<exists>t'. body k t = Some t' \<and> I (Suc k) t'"
  shows "lo \<le> i \<Longrightarrow> i \<le> n \<Longrightarrow> I i s \<Longrightarrow> \<exists>s'. for_upto i n body s = Some s' \<and> I n s'"
proof (induction "n - i" arbitrary: i s)
  case 0
  then show ?case by (simp add: for_upto_done)
next
  case (Suc d)
  then have i: "i < n" by simp
  obtain t where t: "body i s = Some t" "I (Suc i) t"
    using step[of i s] i Suc.prems by auto
  have "\<exists>s'. for_upto (Suc i) n body t = Some s' \<and> I n s'"
    using Suc.hyps(2) Suc.prems i t(2) by (intro Suc.hyps(1)) auto
  moreover have "for_upto i n body s = for_upto (Suc i) n body t"
    using i t(1) by (rule for_upto_step)
  ultimately show ?case by simp
qed

lemma flog_twentieth: "fneg (flog (Fin 0.05)) = Fin (- ln 0.05)"
  by simp



lemma kernel_centre_Fin:
  assumes "0 < smoothedSize impl"
  shows "kernel_centre impl i = Fin (centre_val impl i)"
  using assms by (simp add: kernel_centre_def centre_val_def of_size_def)


lemma centre_val_bounds:
  assumes "i < smoothedSize impl"
  shows "0 \<le> centre_val impl i" "centre_val impl i \<le> real (inputSize impl div 2)"
proof -
  show "0 \<le> centre_val impl i" by (simp add: centre_val_def)
  have "real i * real (inputSize impl div 2) \<le> real (smoothedSize impl) * real (inputSize impl div 2)"
    using assms by (intro mult_right_mono) simp_all
  then show "centre_val impl i \<le> real (inputSize impl div 2)"
    using assms by (simp add: centre_val_def divide_le_eq mult.commute)
qed

lemma trunc_bounds: "\<bar>real_of_int (trunc a)\<bar> \<le> \<bar>a\<bar>"
  by (simp add: trunc_def)

lemma to_int_Fin:
  assumes "\<bar>a\<bar> < 2 ^ 31"
  shows "to_int (Fin a) = Some (trunc a)"
proof -
  have "\<bar>real_of_int (trunc a)\<bar> < 2 ^ 31" using trunc_bounds[of a] assms by linarith
  then have "real_of_int (- (2 ^ 31)) \<le> real_of_int (trunc a)"
    "real_of_int (trunc a) < real_of_int (2 ^ 31)" by simp_all
  then have "- (2 ^ 31) \<le> trunc a \<and> trunc a < 2 ^ 31"
    by (simp only: of_int_le_iff of_int_less_iff)
  then show ?thesis by (simp add: to_int_def trunc_def Let_def)
qed





lemma trunc_of_nat: "trunc (real n) = int n"
  by (simp add: trunc_def)

lemma trunc_nonneg: "0 \<le> a \<Longrightarrow> 0 \<le> trunc a"
  by (simp add: trunc_def)

lemma to_uint32_small: "0 \<le> x \<Longrightarrow> x < 2 ^ 31 \<Longrightarrow> to_uint32 x = nat x"
  by (simp add: to_uint32_def)











section \<open>Equaliser and volume\<close>

lemma eq_weight_Fin:
  assumes "0 < inSize"
  shows "eq_weight (Fin amp) inSize n = Fin (weight_real amp inSize n)"
proof -
  have "0 < 2 * real n / real inSize + 1.05"
    by (intro add_nonneg_pos divide_nonneg_nonneg) simp_all
  then show ?thesis
    using assms by (simp add: eq_weight_def weight_real_def of_size_def)
qed

lemma weight_real_pos:
  assumes "0 < amp" "0 < inSize"
  shows "0 < weight_real amp inSize n"
proof -
  have "0 \<le> 2 * real n / real inSize" by simp
  then have "1 < 2 * real n / real inSize + 1.05"
    by (rule add_strict_increasing2) simp
  then have "0 < log 10 (2 * real n / real inSize + 1.05)" by simp
  then show ?thesis using assms by (simp add: weight_real_def)
qed

lemma weight_real_mono:
  assumes "0 < amp" "0 < inSize" "n < n'"
  shows "weight_real amp inSize n < weight_real amp inSize n'"
proof -
  have "2 * real n / real inSize < 2 * real n' / real inSize"
    using assms by (simp add: divide_strict_right_mono)
  moreover have "0 < 2 * real n / real inSize + 1.05"
    by (intro add_nonneg_pos divide_nonneg_nonneg) simp_all
  ultimately have "log 10 (2 * real n / real inSize + 1.05) < log 10 (2 * real n' / real inSize + 1.05)"
    by simp
  then show ?thesis using assms by (simp add: weight_real_def)
qed

lemma length_equalised [simp]: "length (equalised impl xs k) = length xs"
  by (simp add: equalised_def)

lemma equalised_0: "equalised impl xs 0 = xs"
  by (auto simp add: equalised_def intro!: nth_equalityI)

lemma equalised_step:
  assumes "k < length xs"
  shows "(equalised impl xs k)[k := fmul (equalised impl xs k ! k)
            (eq_weight (amplitude impl) (inputSize impl) k)] = equalised impl xs (Suc k)"
  using assms by (auto simp add: equalised_def nth_list_update intro!: nth_equalityI)

lemma equalised_nth:
  "n < length xs \<Longrightarrow> equalised impl xs k ! n =
     (if n < k then fmul (xs ! n) (eq_weight (amplitude impl) (inputSize impl) n) else xs ! n)"
  by (simp add: equalised_def)

lemma equalise_loop:
  assumes "m \<le> length lb" "m \<le> length rb"
  shows "k \<le> m \<Longrightarrow>
         for_upto k m (equalise_step impl) (equalised impl lb k, equalised impl rb k)
           = Some (equalised impl lb m, equalised impl rb m)"
proof (induction "m - k" arbitrary: k)
  case 0
  then show ?case by (simp add: for_upto_done)
next
  case (Suc d)
  then have k: "k < m" by simp
  have body: "equalise_step impl k (equalised impl lb k, equalised impl rb k)
              = Some (equalised impl lb (Suc k), equalised impl rb (Suc k))"
    using k assms by (simp add: equalise_step_def Let_def equalised_step)
  have "for_upto k m (equalise_step impl) (equalised impl lb k, equalised impl rb k)
        = for_upto (Suc k) m (equalise_step impl) (equalised impl lb (Suc k), equalised impl rb (Suc k))"
    using k body by (rule for_upto_step)
  also have "\<dots> = Some (equalised impl lb m, equalised impl rb m)"
    using Suc.hyps(2) k by (intro Suc.hyps(1)) auto
  finally show ?case .
qed

lemma equalise_eq:
  assumes "inputSize impl div 2 \<le> length (lBuffer a)" "inputSize impl div 2 \<le> length (rBuffer a)"
  shows "equalise impl a =
           Some (a\<lparr>lBuffer := equalised impl (lBuffer a) (inputSize impl div 2),
                   rBuffer := equalised impl (rBuffer a) (inputSize impl div 2)\<rparr>)"
  using equalise_loop[OF assms, of 0] by (simp add: equalise_def equalised_0)

lemma foldl_fadd_Fin:
  assumes "\<forall>j < length xs. isfinite (xs ! j)"
  shows "foldl fadd (Fin s) xs = Fin (s + (\<Sum>j<length xs. fin_val (xs ! j)))"
  using assms
proof (induction xs rule: rev_induct)
  case Nil
  then show ?case by simp
next
  case (snoc x xs)
  have "length xs < length (xs @ [x])" by simp
  with snoc.prems have "isfinite ((xs @ [x]) ! length xs)" by blast
  then have "isfinite x" by simp
  then obtain v where v: "x = Fin v" by (cases x) simp_all
  have "\<forall>j<length xs. isfinite (xs ! j)"
  proof (intro allI impI)
    fix j assume j: "j < length xs"
    then have "j < length (xs @ [x])" by simp
    with snoc.prems have "isfinite ((xs @ [x]) ! j)" by blast
    then show "isfinite (xs ! j)" using j by (simp add: nth_append)
  qed
  then have IH: "foldl fadd (Fin s) xs = Fin (s + (\<Sum>j<length xs. fin_val (xs ! j)))"
    by (rule snoc.IH)
  show ?case by (simp add: IH v nth_append)
qed

lemma accumulate_Fin:
  assumes "n \<le> length xs" "\<forall>j < n. isfinite (xs ! j)"
  shows "accumulate xs n (Fin 0) = Some (Fin (\<Sum>j<n. fin_val (xs ! j)))"
  using assms foldl_fadd_Fin[of "take n xs" 0]
  by (simp add: accumulate_def min_absorb2)

lemma calculateVolume_eq:
  assumes "0 < inputSize impl"
    and "inputSize impl div 2 \<le> length (lBuffer a)" "inputSize impl div 2 \<le> length (rBuffer a)"
    and "\<forall>j < inputSize impl div 2. isfinite (lBuffer a ! j)"
    and "\<forall>j < inputSize impl div 2. isfinite (rBuffer a ! j)"
  shows "calculateVolume impl a =
           Some (a\<lparr>lVolume := Fin ((\<Sum>j<inputSize impl div 2. fin_val (lBuffer a ! j)) / real (inputSize impl)),
                   rVolume := Fin ((\<Sum>j<inputSize impl div 2. fin_val (rBuffer a ! j)) / real (inputSize impl))\<rparr>)"
  using assms by (simp add: calculateVolume_def accumulate_Fin of_size_def)

lemma magnitude_entry_Fin [simp]: "magnitude_entry (Fin v) \<longleftrightarrow> 0 \<le> v"
  by (simp add: magnitude_entry_def)

lemma magnitude_entry_isfinite: "magnitude_entry x \<Longrightarrow> isfinite x"
  by (cases x) (simp_all add: magnitude_entry_def)

lemma magnitude_entry_nonneg: "magnitude_entry x \<Longrightarrow> 0 \<le> fin_val x"
  by (cases x) (simp_all add: magnitude_entry_def)

section \<open>The demultiplexer\<close>

lemma length_as_complex: "length (as_complex xs) = length xs div 2"
  by (induction xs rule: as_complex.induct) simp_all

lemma length_as_floats: "length (as_floats zs) = 2 * length zs"
  by (induction zs) simp_all

lemma length_dft [simp]: "length (dft x) = length x"
  by (simp add: dft_def)

lemma left_bin_nonneg: "0 \<le> left_bin impl X r"
  by (simp add: left_bin_def mono_bin_def stereo_left_bin_def Let_def)

lemma right_bin_nonneg: "0 \<le> right_bin impl X r"
  by (simp add: right_bin_def mono_bin_def stereo_right_bin_def Let_def)

lemma mono_bins_equal: "channels impl = 1 \<Longrightarrow> left_bin impl X r = right_bin impl X r"
  by (simp add: left_bin_def right_bin_def)

lemma bins_prefix:
  assumes "1 \<le> r" "r < inputSize impl div 2" "length X = fft_size impl"
  shows "left_bin impl (X @ rest) r = left_bin impl X r"
    "right_bin impl (X @ rest) r = right_bin impl X r"
proof -
  have "r < length X" "inputSize impl div 2 - r < length X" "inputSize impl - r < length X \<or> channels impl = 1"
    using assms by (auto simp add: fft_size_def split: if_splits)
  then show "left_bin impl (X @ rest) r = left_bin impl X r"
    "right_bin impl (X @ rest) r = right_bin impl X r"
    by (auto simp add: left_bin_def right_bin_def mono_bin_def stereo_left_bin_def
        stereo_right_bin_def nth_append Let_def)
qed

lemma magnitudes_mono_inv:
  assumes "magnitudes_inv impl a input k bufs" "channels impl = 1"
    and "1 \<le> k" "k < inputSize impl div 2" "inputSize impl div 2 \<le> length input"
    and "inputSize impl div 2 \<le> length (lBuffer a)" "inputSize impl div 2 \<le> length (rBuffer a)"
  shows "\<exists>bufs'. magnitudes_mono (inputSize impl) input k bufs = Some bufs'
           \<and> magnitudes_inv impl a input (Suc k) bufs'"
proof -
  obtain lb rb where b: "bufs = (lb, rb)" by (cases bufs)
  have "inputSize impl div 2 - k < length input" using assms by simp
  then show ?thesis
    using assms unfolding b
    by (auto simp add: magnitudes_mono_def magnitudes_inv_def Let_def nth_list_update less_Suc_eq
        left_bin_def right_bin_def mono_bin_def)
qed

lemma magnitudes_stereo_inv:
  assumes "magnitudes_inv impl a input k bufs" "channels impl \<noteq> 1"
    and "1 \<le> k" "k < inputSize impl div 2" "inputSize impl \<le> length input"
    and "inputSize impl div 2 \<le> length (lBuffer a)" "inputSize impl div 2 \<le> length (rBuffer a)"
  shows "\<exists>bufs'. magnitudes_stereo (inputSize impl) input k bufs = Some bufs'
           \<and> magnitudes_inv impl a input (Suc k) bufs'"
proof -
  obtain lb rb where b: "bufs = (lb, rb)" by (cases bufs)
  have "inputSize impl - k < length input" "k < length input" using assms by simp_all
  then show ?thesis
    using assms unfolding b
    by (auto simp add: magnitudes_stereo_def magnitudes_inv_def Let_def nth_list_update less_Suc_eq
        left_bin_def right_bin_def stereo_left_bin_def stereo_right_bin_def)
qed

lemma magnitudes_values:
  assumes sz: "fft_size impl = 2 ^ n" "n < 16"
    and buf: "2 * fft_size impl \<le> length (buffer a)"
    and bins: "2 \<le> inputSize impl div 2"
      "inputSize impl div 2 \<le> length (lBuffer a)" "inputSize impl div 2 \<le> length (rBuffer a)"
  shows "\<exists>a'. magnitudes impl a = Some a'
           \<and> length (buffer a') = length (buffer a)
           \<and> length (lBuffer a') = length (lBuffer a)
           \<and> length (rBuffer a') = length (rBuffer a)
           \<and> lVolume a' = lVolume a \<and> rVolume a' = rVolume a
           \<and> (\<forall>r. 1 \<le> r \<and> r < inputSize impl div 2 \<longrightarrow>
                 lBuffer a' ! r
                   = Fin (left_bin impl (dft (take (fft_size impl) (as_complex (buffer a)))) r)
                 \<and> rBuffer a' ! r
                   = Fin (right_bin impl (dft (take (fft_size impl) (as_complex (buffer a)))) r))
           \<and> lBuffer a' ! 0
                = Fin (right_bin impl (dft (take (fft_size impl) (as_complex (buffer a)))) 1)
           \<and> rBuffer a' ! 0
                = Fin (left_bin impl (dft (take (fft_size impl) (as_complex (buffer a)))) 1)"
proof -
  define input where "input = as_complex (buffer a)"
  define N where "N = inputSize impl"
  define spectrum where "spectrum = dft (take (fft_size impl) input)"
  define input' where "input' = spectrum @ drop (fft_size impl) input"
  have li: "fft_size impl \<le> length input"
    using buf by (simp add: input_def length_as_complex)
  have lt: "length (take (fft_size impl) input) = 2 ^ n" using li sz by simp
  have ls: "length spectrum = fft_size impl" using li by (simp add: spectrum_def)
  have fft: "fft (take (fft_size impl) input) (fft_size impl) = Some spectrum"
    using fft_eq_dft[OF sz(2) lt] by (simp add: spectrum_def sz(1))
  have li': "length input' = length input"
    using li by (simp add: input'_def spectrum_def)
  have half: "N div 2 \<le> fft_size impl" by (simp add: fft_size_def N_def)
  have full: "channels impl \<noteq> 1 \<Longrightarrow> N \<le> length input'" 
    using li li' by (simp add: fft_size_def N_def)
  define body where "body = (if channels impl = 1 then magnitudes_mono N input'
                             else magnitudes_stereo N input')"
  have step: "\<exists>t'. body k t = Some t' \<and> magnitudes_inv impl a input' (Suc k) t'"
    if "1 \<le> k" "k < N div 2" "magnitudes_inv impl a input' k t" for k t
  proof (cases "channels impl = 1")
    case True
    then show ?thesis
      using magnitudes_mono_inv[OF that(3) True that(1)] that(2) bins li li' half
      by (simp add: body_def N_def)
  next
    case False
    then show ?thesis
      using magnitudes_stereo_inv[OF that(3) False that(1)] that(2) bins full
      by (simp add: body_def N_def)
  qed
  have init: "magnitudes_inv impl a input' 1 (lBuffer a, rBuffer a)"
    by (simp add: magnitudes_inv_def)
  have "\<exists>s'. for_upto 1 (N div 2) body (lBuffer a, rBuffer a) = Some s'
          \<and> magnitudes_inv impl a input' (N div 2) s'"
    using bins(1) init by (intro for_upto_invariant[where lo = 1] step) (simp_all add: N_def)
  then obtain lb rb where loop: "for_upto 1 (N div 2) body (lBuffer a, rBuffer a) = Some (lb, rb)"
    and inv: "magnitudes_inv impl a input' (N div 2) (lb, rb)"
    by (metis surj_pair)
  have len: "length lb = length (lBuffer a)" "length rb = length (rBuffer a)"
    and ent': "\<And>r. 1 \<le> r \<Longrightarrow> r < N div 2 \<Longrightarrow>
                lb ! r = Fin (left_bin impl input' r) \<and> rb ! r = Fin (right_bin impl input' r)"
    using inv by (simp_all add: magnitudes_inv_def)
  have ent: "lb ! r = Fin (left_bin impl spectrum r) \<and> rb ! r = Fin (right_bin impl spectrum r)"
    if "1 \<le> r" "r < N div 2" for r
    using ent'[OF that] bins_prefix[OF that(1) that(2)[unfolded N_def] ls]
    by (simp add: input'_def)
  have l1: "1 < length lb" "1 < length rb" using len bins by (simp_all add: N_def)
  have l0: "0 < length lb" "0 < length rb" using l1 by linarith+
  define a' where "a' = a\<lparr>buffer := as_floats input' @ drop (2 * length input) (buffer a),
                            lBuffer := lb[0 := rb ! 1], rBuffer := rb[0 := lb[0 := rb ! 1] ! 1]\<rparr>"
  have res: "magnitudes impl a = Some a'"
    using li[unfolded input_def] fft[unfolded spectrum_def input_def]
      loop[unfolded body_def N_def input'_def spectrum_def input_def] l1
    unfolding a'_def input'_def spectrum_def input_def
    by (simp add: magnitudes_def Let_def)
  have e1: "lb ! 1 = Fin (left_bin impl spectrum 1)" "rb ! 1 = Fin (right_bin impl spectrum 1)"
    using ent[of 1] bins(1) by (simp_all add: N_def)
  have blen: "length (buffer a') = length (buffer a)"
    by (simp add: a'_def length_as_floats li' input_def length_as_complex)
  have entries: "lBuffer a' ! r = Fin (left_bin impl spectrum r)
                 \<and> rBuffer a' ! r = Fin (right_bin impl spectrum r)"
    if "1 \<le> r" "r < N div 2" for r
    using that ent[of r] l1 l0 by (simp add: a'_def)
  have zero: "lBuffer a' ! 0 = Fin (right_bin impl spectrum 1)"
    "rBuffer a' ! 0 = Fin (left_bin impl spectrum 1)"
    using e1 l1 l0 by (simp_all add: a'_def)
  have lens: "length (lBuffer a') = length (lBuffer a)" "length (rBuffer a') = length (rBuffer a)"
    "lVolume a' = lVolume a" "rVolume a' = rVolume a"
    using len by (simp_all add: a'_def)
  show ?thesis
    using res blen entries zero lens
    unfolding spectrum_def input_def N_def
    by (intro exI[of _ a']) blast
qed

lemma magnitudes_ok:
  assumes sz: "fft_size impl = 2 ^ n" "n < 16"
    and buf: "2 * fft_size impl \<le> length (buffer a)"
    and bins: "2 \<le> inputSize impl div 2"
      "inputSize impl div 2 \<le> length (lBuffer a)" "inputSize impl div 2 \<le> length (rBuffer a)"
  shows "\<exists>a'. magnitudes impl a = Some a'
           \<and> length (buffer a') = length (buffer a)
           \<and> length (lBuffer a') = length (lBuffer a)
           \<and> length (rBuffer a') = length (rBuffer a)
           \<and> lVolume a' = lVolume a \<and> rVolume a' = rVolume a
           \<and> (\<forall>i < inputSize impl div 2.
                 magnitude_entry (lBuffer a' ! i) \<and> magnitude_entry (rBuffer a' ! i))
           \<and> lBuffer a' ! 0 = rBuffer a' ! 1 \<and> rBuffer a' ! 0 = lBuffer a' ! 1
           \<and> (channels impl = 1 \<longrightarrow>
                 (\<forall>r. 1 \<le> r \<and> r < inputSize impl div 2 \<longrightarrow> lBuffer a' ! r = rBuffer a' ! r))"
proof -
  define X where "X = dft (take (fft_size impl) (as_complex (buffer a)))"
  obtain a' :: AudioData where res: "magnitudes impl a = Some a'"
    and lens: "length (buffer a') = length (buffer a)" "length (lBuffer a') = length (lBuffer a)"
      "length (rBuffer a') = length (rBuffer a)" "lVolume a' = lVolume a" "rVolume a' = rVolume a"
    and ent: "\<And>r. 1 \<le> r \<Longrightarrow> r < inputSize impl div 2 \<Longrightarrow>
               lBuffer a' ! r = Fin (left_bin impl X r) \<and> rBuffer a' ! r = Fin (right_bin impl X r)"
    and zero: "lBuffer a' ! 0 = Fin (right_bin impl X 1)" "rBuffer a' ! 0 = Fin (left_bin impl X 1)"
    using magnitudes_values[OF assms] unfolding X_def by (elim exE conjE) blast
  have e1: "lBuffer a' ! 1 = Fin (left_bin impl X 1)" "rBuffer a' ! 1 = Fin (right_bin impl X 1)"
    using ent[of 1] bins(1) by simp_all
  have entries: "magnitude_entry (lBuffer a' ! i) \<and> magnitude_entry (rBuffer a' ! i)"
    if "i < inputSize impl div 2" for i
    using that ent[of i] zero by (cases "i = 0") (simp_all add: left_bin_nonneg right_bin_nonneg)
  have monoeq: "lBuffer a' ! r = rBuffer a' ! r"
    if "channels impl = 1" "1 \<le> r" "r < inputSize impl div 2" for r
    using ent[OF that(2,3)] mono_bins_equal[OF that(1)] by simp
  show ?thesis
    using res lens entries monoeq zero e1
    by (intro exI[of _ a']) simp
qed

section \<open>The small configuration\<close>

lemma demo_impl_fields:
  "inputSize (demo_impl level) = 8" "smoothedSize (demo_impl level) = 4"
  "channels (demo_impl level) = 2" "amplitude (demo_impl level) = Fin 1"
  "wfCoeff (demo_impl level) = Fin (pi / 7)"
  "implLBuffer (demo_impl level) = replicate 4 (Fin 0)"
  "implRBuffer (demo_impl level) = replicate 4 (Fin 0)"
  by (simp_all add: demo_impl_def demo_settings_def newProccessImpl_def of_size_def Let_def
      map_replicate_const)

lemma demo_factor_zero: "smoothingFactor (demo_impl (Fin 0)) = PInf"
  by (simp add: demo_impl_def demo_settings_def newProccessImpl_def of_size_def Let_def)








lemma trunc_between: "real_of_int z \<le> a \<Longrightarrow> a < real_of_int z + 1 \<Longrightarrow> 0 \<le> z \<Longrightarrow> trunc a = z"
  by (simp add: trunc_def floor_eq_iff)



section \<open>Inverting the transform\<close>

lemma dft_nth:
  "k < length x \<Longrightarrow> dft x ! k = (\<Sum>t<length x. x ! t * twiddle (length x) ^ (k * t))"
  by (simp add: dft_eq_dft_sum dft_sum_def)

lemma cnj_twiddle_pow: "cnj (twiddle m) ^ k = cis (2 * pi * real k / real m)"
proof -
  have "cnj (twiddle m) ^ k = cnj (twiddle m ^ k)" by simp
  also have "\<dots> = cis (2 * pi * real k / real m)"
    unfolding twiddle_pow by (simp add: cis_cnj)
  finally show ?thesis .
qed

lemma twiddle_norm: "twiddle m ^ k * cnj (twiddle m) ^ k = 1"
  by (simp add: twiddle_pow cnj_twiddle_pow cis_mult)

lemma twiddle_cross_ne_1:
  assumes "t < N" "k < N" "t \<noteq> k"
  shows "twiddle N ^ t * cnj (twiddle N) ^ k \<noteq> 1"
proof
  assume eq: "twiddle N ^ t * cnj (twiddle N) ^ k = 1"
  have N: "0 < N" using assms by simp
  define d where "d = real k - real t"
  have "twiddle N ^ t * cnj (twiddle N) ^ k = cis (2 * pi * d / real N)"
    by (simp add: twiddle_pow cnj_twiddle_pow cis_mult d_def algebra_simps diff_divide_distrib)
  with eq have "cis (2 * pi * d / real N) = 1" by simp
  then have "cos (2 * pi * d / real N) = 1" by (metis cis.simps(1) one_complex.simps(1))
  then obtain m :: int where m: "2 * pi * d / real N = of_int m * 2 * pi"
    by (auto simp add: cos_one_2pi_int)
  then have dm: "d = of_int m * real N" using N by (simp add: field_simps)
  have "\<bar>d\<bar> < real N" using assms by (simp add: d_def abs_if)
  then have "\<bar>of_int m * real N\<bar> < 1 * real N" by (simp add: dm)
  then have "\<bar>real_of_int m\<bar> < 1" using N by (simp add: abs_mult)
  then have "m = 0" by linarith
  then have "d = 0" by (simp add: dm)
  then show False using assms by (simp add: d_def)
qed

lemma twiddle_cross_sum:
  assumes "t < N" "k < N"
  shows "(\<Sum>j<N. twiddle N ^ (j * t) * cnj (twiddle N) ^ (k * j)) = (if t = k then of_nat N else 0)"
proof -
  define c where "c = twiddle N ^ t * cnj (twiddle N) ^ k"
  have N: "0 < N" using assms by simp
  have tm: "twiddle N ^ (j * t) * cnj (twiddle N) ^ (k * j) = c ^ j" for j
    by (simp add: c_def power_mult_distrib mult.commute flip: power_mult)
  have S: "(\<Sum>j<N. twiddle N ^ (j * t) * cnj (twiddle N) ^ (k * j)) = (\<Sum>j<N. c ^ j)"
    by (simp add: tm)
  show ?thesis
  proof (cases "t = k")
    case True
    then have "c = 1" by (simp add: c_def twiddle_norm)
    then show ?thesis unfolding S using True by simp
  next
    case False
    then have c1: "c \<noteq> 1" using twiddle_cross_ne_1[OF assms] by (simp add: c_def)
    have "c ^ N = twiddle N ^ (N * t) * cnj (twiddle N ^ (N * k))"
      by (simp add: c_def power_mult_distrib mult.commute flip: power_mult)
    then have "c ^ N = 1" by (simp only: twiddle_full[OF N]) simp
    then have "(\<Sum>j<N. c ^ j) = 0" using c1 by (simp add: geometric_sum)
    then show ?thesis unfolding S using False by simp
  qed
qed

lemma dft_inverse:
  assumes "0 < length x"
  shows "map (\<lambda>z. cnj z / of_nat (length x)) (dft (map cnj (dft x))) = x"
proof (rule nth_equalityI)
  show "length (map (\<lambda>z. cnj z / of_nat (length x)) (dft (map cnj (dft x)))) = length x"
    by simp
next
  fix k assume "k < length (map (\<lambda>z. cnj z / of_nat (length x)) (dft (map cnj (dft x))))"
  then have k: "k < length x" by simp
  define N where "N = length x"
  have "cnj (dft (map cnj (dft x)) ! k) = (\<Sum>j<N. dft x ! j * cnj (twiddle N) ^ (k * j))"
    using k by (simp add: dft_nth N_def)
  also have "\<dots> = (\<Sum>j<N. \<Sum>t<N. x ! t * (twiddle N ^ (j * t) * cnj (twiddle N) ^ (k * j)))"
    by (simp add: dft_nth N_def sum_distrib_right mult.assoc)
  also have "\<dots> = (\<Sum>t<N. x ! t * (\<Sum>j<N. twiddle N ^ (j * t) * cnj (twiddle N) ^ (k * j)))"
    by (subst sum.swap) (simp add: sum_distrib_left)
  also have "\<dots> = (\<Sum>t<N. x ! t * (if t = k then of_nat N else 0))"
    using k by (intro sum.cong refl) (simp add: twiddle_cross_sum N_def)
  also have "\<dots> = (\<Sum>t<N. if t = k then x ! k * of_nat N else 0)"
    by (intro sum.cong refl) simp
  also have "\<dots> = x ! k * of_nat N"
    using k by (simp add: N_def)
  finally show "map (\<lambda>z. cnj z / of_nat (length x)) (dft (map cnj (dft x))) ! k = x ! k"
    using k assms by (simp add: N_def)
qed

section \<open>The claims on the transform\<close>

text \<open>
  \<^bold>\<open>C3.\<close> For every power-of-two size below \<open>2^16\<close>, \<open>fft\<close> returns the discrete Fourier
  transform of its input (the reference definition \<open>dft\<close>), and transforming, conjugating,
  transforming again, conjugating and dividing by the size gives the original signal back.
  Samples are exact complex numbers here, so the round trip is exact.
\<close>

theorem fft_is_dft:
  assumes "n < 16" and "length x = 2 ^ n"
  shows "fft x (2 ^ n) = Some (dft x)
       \<and> fft (map cnj (dft x)) (2 ^ n) = Some (dft (map cnj (dft x)))
       \<and> map (\<lambda>z. cnj z / of_nat (2 ^ n)) (dft (map cnj (dft x))) = x"
proof -
  have 1: "fft x (2 ^ n) = Some (dft x)"
    using assms by (rule fft_eq_dft)
  have "length (map cnj (dft x)) = 2 ^ n" using assms by simp
  then have 2: "fft (map cnj (dft x)) (2 ^ n) = Some (dft (map cnj (dft x)))"
    using assms(1) by (intro fft_eq_dft)
  have "0 < length x" using assms by simp
  then have 3: "map (\<lambda>z. cnj z / of_nat (2 ^ n)) (dft (map cnj (dft x))) = x"
    using dft_inverse[of x] assms(2) by simp
  show ?thesis using 1 2 3 by simp
qed

lemma Complex_0_0: "Complex 0 0 = 0"
  by (simp add: complex_eq_iff)

lemma dft_impulse: "dft [1, 0, 0, 0] = [1, 1, 1, 1]"
  by (simp add: dft_def upt_rec lessThan_nat_numeral lessThan_Suc Complex_0_0)

theorem fft_is_dft_witness:
  "(2::nat) < 16 \<and> length [1, 0, 0, 0 :: complex] = 2 ^ 2
   \<and> fft [1, 0, 0, 0] (2 ^ 2) = Some [1, 1, 1, 1]
   \<and> map (\<lambda>z. cnj z / of_nat (2 ^ 2)) (dft (map cnj [1, 1, 1, 1])) = [1, 0, 0, 0]"
  using fft_is_dft[of 2 "[1, 0, 0, 0]"] by (simp add: dft_impulse)

text \<open>
  \<^bold>\<open>C10.\<close> On the fallback path of \<open>bitReverseShuffle\<close>, \<open>numBits\<close> is exactly \<open>log2 size\<close> for
  every power of two \<open>size = 2^k\<close> with \<open>k < 16\<close>; the shuffle then returns the array in which
  position \<open>i\<close> holds the element of position \<open>reverseBits i k\<close>, where \<open>reverseBits\<close> mirrors
  the low \<open>k\<close> bits and is its own inverse, so the result is a permutation of the input.
\<close>

theorem bitReverseShuffle_permutes:
  assumes "k < 16" and "length xs = 2 ^ k"
  shows "numBits (2 ^ k) = k
       \<and> bitReverseShuffle xs (2 ^ k) = Some (map (\<lambda>i. xs ! reverseBits i k) [0..<2 ^ k])
       \<and> (\<forall>i < 2 ^ k. reverseBits i k < 2 ^ k \<and> reverseBits (reverseBits i k) k = i
                      \<and> (\<forall>j < k. bit (reverseBits i k) j = bit i (k - 1 - j)))
       \<and> mset (map (\<lambda>i. xs ! reverseBits i k) [0..<2 ^ k]) = mset xs"
proof (intro conjI allI impI)
  show "numBits (2 ^ k) = k" using assms(1) by (rule numBits_pow2)
  show "bitReverseShuffle xs (2 ^ k) = Some (map (\<lambda>i. xs ! reverseBits i k) [0..<2 ^ k])"
    using assms by (rule bitReverseShuffle_eq)
  show "mset (map (\<lambda>i. xs ! reverseBits i k) [0..<2 ^ k]) = mset xs"
    using assms(2) by (rule mset_reverse_perm)
next
  fix i :: nat assume "i < 2 ^ k"
  then show "reverseBits (reverseBits i k) k = i" by (rule reverseBits_involution)
  show "reverseBits i k < 2 ^ k" by (rule reverseBits_less)
next
  fix i j :: nat assume "j < k"
  then show "bit (reverseBits i k) j = bit i (k - 1 - j)" by (simp add: bit_reverseBits)
qed

lemma reverseBits_two:
  "reverseBits 0 2 = 0" "reverseBits (Suc 0) 2 = 2" "reverseBits 2 2 = 1" "reverseBits 3 2 = 3"
  by (simp_all add: reverseBits_def reverseBits_loop.simps)

lemma upt_four: "[0..<4] = [0, 1, 2, 3]"
  by (simp add: upt_rec)

theorem bitReverseShuffle_permutes_witness:
  "(2::nat) < 16 \<and> length [10, 11, 12, 13 :: nat] = 2 ^ 2
   \<and> numBits (2 ^ 2) = 2
   \<and> bitReverseShuffle [10, 11, 12, 13 :: nat] (2 ^ 2) = Some [10, 12, 11, 13]
   \<and> mset [10, 12, 11, 13 :: nat] = mset [10, 11, 12, 13]"
  using bitReverseShuffle_permutes[of 2 "[10, 11, 12, 13 :: nat]"]
  by (simp add: upt_four reverseBits_two)

section \<open>Values written by the smoother\<close>


















section \<open>The stages before the smoother\<close>

lemma windowFunction_ok:
  assumes "isfinite (wfCoeff impl)"
    and "(if channels impl = 1 then inputSize impl else 2 * inputSize impl) \<le> length (buffer a)"
  shows "\<exists>b. windowFunction impl a = Some (a\<lparr>buffer := b\<rparr>) \<and> length b = length (buffer a)"
proof -
  obtain c where c: "wfCoeff impl = Fin c" using assms(1) by (cases "wfCoeff impl") simp_all
  define body where "body = (if channels impl = 1 then window_real c else window_complex c)"
  have step: "\<exists>t'. body k t = Some t' \<and> length t' = length (buffer a)"
    if "k < inputSize impl" "length t = length (buffer a)" for k t
    using that assms(2)
    by (auto simp add: body_def window_real_def window_complex_def split: if_splits)
  have "\<exists>s'. for_upto 0 (inputSize impl) body (buffer a) = Some s' \<and> length s' = length (buffer a)"
    by (rule for_upto_invariant[where lo = 0 and I = "\<lambda>k t. length t = length (buffer a)"])
       (use step in auto)
  then show ?thesis
    by (auto simp add: windowFunction_def c body_def)
qed

lemma eq_weight_nonneg:
  assumes "0 \<le> amp" "0 < inSize"
  shows "eq_weight (Fin amp) inSize n = Fin (weight_real amp inSize n)" "0 \<le> weight_real amp inSize n"
proof -
  show "eq_weight (Fin amp) inSize n = Fin (weight_real amp inSize n)"
    using assms(2) by (rule eq_weight_Fin)
  have "0 \<le> 2 * real n / real inSize" by simp
  then have "1 < 2 * real n / real inSize + 1.05"
    by (rule add_strict_increasing2) simp
  then have "0 < log 10 (2 * real n / real inSize + 1.05)" by simp
  then show "0 \<le> weight_real amp inSize n" using assms(1) by (simp add: weight_real_def)
qed

lemma equalised_entries:
  assumes "isfinite (amplitude impl)" "0 \<le> fin_val (amplitude impl)" "0 < inputSize impl"
    and "i < k" "k \<le> length xs" "magnitude_entry (xs ! i)"
  shows "magnitude_entry (equalised impl xs k ! i)"
proof -
  obtain amp where amp: "amplitude impl = Fin amp" "0 \<le> amp"
    using assms(1,2) by (cases "amplitude impl") simp_all
  obtain v where v: "xs ! i = Fin v" "0 \<le> v"
    using assms(6) by (cases "xs ! i") (simp_all add: magnitude_entry_def)
  show ?thesis
    using assms(4,5) eq_weight_nonneg[OF amp(2) assms(3), of i] v
    by (simp add: equalised_nth amp(1))
qed

lemma pipeline_front:
  assumes "pipeline_ready impl a"
  shows "\<exists>a1 a2 a3 a4.
           windowFunction impl a = Some a1 \<and> magnitudes impl a1 = Some a2
         \<and> equalise impl a2 = Some a3 \<and> calculateVolume impl a3 = Some a4
         \<and> (\<forall>i < inputSize impl div 2.
               magnitude_entry (lBuffer a2 ! i) \<and> magnitude_entry (rBuffer a2 ! i))
         \<and> (\<forall>i < inputSize impl div 2.
               magnitude_entry (lBuffer a3 ! i) \<and> magnitude_entry (rBuffer a3 ! i))
         \<and> lBuffer a4 = lBuffer a3 \<and> rBuffer a4 = rBuffer a3
         \<and> magnitude_entry (lVolume a4) \<and> magnitude_entry (rVolume a4)
         \<and> length (lBuffer a3) = length (lBuffer a) \<and> length (rBuffer a3) = length (rBuffer a)"
proof -
  define N where "N = inputSize impl"
  have rdy: "isfinite (wfCoeff impl)" "isfinite (amplitude impl)" "0 \<le> fin_val (amplitude impl)"
    "(if channels impl = 1 then N else 2 * N) \<le> length (buffer a)"
    "2 \<le> N div 2" "N div 2 \<le> length (lBuffer a)" "N div 2 \<le> length (rBuffer a)"
    using assms by (simp_all add: pipeline_ready_def N_def split: if_splits)
  obtain n where n: "fft_size impl = 2 ^ n" "n < 16"
    using assms by (auto simp add: pipeline_ready_def)
  have Npos: "0 < N" using rdy(5) by (cases N) simp_all
  obtain b where b: "windowFunction impl a = Some (a\<lparr>buffer := b\<rparr>)" "length b = length (buffer a)"
    using windowFunction_ok[OF rdy(1), of a] rdy(4) by (auto simp add: N_def split: if_splits)
  define a1 where "a1 = a\<lparr>buffer := b\<rparr>"
  have "2 * fft_size impl \<le> length (buffer a1)"
    using rdy(4) b(2) by (simp add: a1_def fft_size_def N_def split: if_splits)
  then obtain a2 where a2: "magnitudes impl a1 = Some a2"
    "length (lBuffer a2) = length (lBuffer a1)" "length (rBuffer a2) = length (rBuffer a1)"
    "\<forall>i < N div 2. magnitude_entry (lBuffer a2 ! i) \<and> magnitude_entry (rBuffer a2 ! i)"
    using magnitudes_ok[OF n, of a1] rdy(5,6,7) unfolding N_def a1_def by auto
  have len2: "N div 2 \<le> length (lBuffer a2)" "N div 2 \<le> length (rBuffer a2)"
    using a2(2,3) rdy(6,7) by (simp_all add: a1_def)
  define a3 where "a3 = a2\<lparr>lBuffer := equalised impl (lBuffer a2) (N div 2),
                             rBuffer := equalised impl (rBuffer a2) (N div 2)\<rparr>"
  have a3: "equalise impl a2 = Some a3"
    using equalise_eq[of impl a2] len2 by (simp add: a3_def N_def)
  have ent3: "magnitude_entry (lBuffer a3 ! i) \<and> magnitude_entry (rBuffer a3 ! i)" if "i < N div 2" for i
    using that a2(4) len2 rdy(2,3) Npos
    by (simp add: a3_def equalised_entries N_def)
  have fin3: "\<forall>j < N div 2. isfinite (lBuffer a3 ! j)" "\<forall>j < N div 2. isfinite (rBuffer a3 ! j)"
    using ent3 by (auto intro: magnitude_entry_isfinite)
  have len3: "N div 2 \<le> length (lBuffer a3)" "N div 2 \<le> length (rBuffer a3)"
    using len2 by (simp_all add: a3_def)
  define a4 where "a4 = a3\<lparr>lVolume := Fin ((\<Sum>j<N div 2. fin_val (lBuffer a3 ! j)) / real N),
                             rVolume := Fin ((\<Sum>j<N div 2. fin_val (rBuffer a3 ! j)) / real N)\<rparr>"
  have a4: "calculateVolume impl a3 = Some a4"
    using calculateVolume_eq[of impl a3] Npos len3 fin3 by (simp add: a4_def N_def)
  have "0 \<le> (\<Sum>j<N div 2. fin_val (lBuffer a3 ! j))" "0 \<le> (\<Sum>j<N div 2. fin_val (rBuffer a3 ! j))"
    using ent3 by (auto intro!: sum_nonneg magnitude_entry_nonneg)
  then have vol: "magnitude_entry (lVolume a4)" "magnitude_entry (rVolume a4)"
    by (simp_all add: a4_def)
  show ?thesis
    using b(1) a2(1) a3 a4 a2(4) ent3 vol a2(2,3)
    by (intro exI[of _ a1] exI[of _ a2] exI[of _ a3] exI[of _ a4])
       (simp add: a1_def a4_def N_def a3_def)
qed

section \<open>The smoother for an infinite factor\<close>

lemma nan_filled_step:
  assumes "k < length old"
  shows "(nan_filled old k)[k := NaN] = nan_filled old (Suc k)"
proof -
  have "drop k old = old ! k # drop (Suc k) old"
    using assms by (simp add: Cons_nth_drop_Suc)
  then show ?thesis
    by (simp add: nan_filled_def list_update_append replicate_append_same)
qed

lemma length_nan_filled: "k \<le> length old \<Longrightarrow> length (nan_filled old k) = length old"
  by (simp add: nan_filled_def)

lemma nan_filled_nth: "i < k \<Longrightarrow> nan_filled old k ! i = NaN"
  by (simp add: nan_filled_def nth_append)

lemma kernel_radius_PInf:
  assumes "smoothingFactor impl = PInf" "0 < smoothedSize impl"
  shows "kernel_radius impl = Fin 0"
  using assms by (simp add: kernel_radius_def of_size_def)

lemma kernel_output_PInf:
  assumes sf: "smoothingFactor impl = PInf" and ss: "0 < smoothedSize impl"
    and old: "real (inputSize impl div 2) < 2 ^ 31"
    and i: "i < smoothedSize impl" "i < length lb" "i < length rb"
  shows "kernel_output impl a i (lb, rb) = Some (lb[i := NaN], rb[i := NaN])"
proof -
  define c where "c = centre_val impl i"
  have c0: "0 \<le> c" "c \<le> real (inputSize impl div 2)"
    using centre_val_bounds[OF i(1)] by (simp_all add: c_def)
  have cb: "\<bar>c\<bar> < 2 ^ 31" using c0 old by linarith
  have lo: "to_int (fsub (kernel_centre impl i) (kernel_radius impl)) = Some (trunc c)"
    using kernel_radius_PInf[OF sf ss] kernel_centre_Fin[OF ss, of i] cb
    by (simp add: fsub_def c_def to_int_Fin)
  have hi: "to_int (fadd (kernel_centre impl i) (kernel_radius impl)) = Some (trunc c)"
    using kernel_radius_PInf[OF sf ss] kernel_centre_Fin[OF ss, of i] cb
    by (simp add: c_def to_int_Fin)
  have od: "to_int (of_size (inputSize impl div 2)) = Some (int (inputSize impl div 2))"
    using old by (simp add: of_size_def to_int_Fin trunc_of_nat)
  have t0: "0 \<le> trunc c" using c0 by (intro trunc_nonneg)
  have "\<bar>real_of_int (trunc c)\<bar> < 2 ^ 31" using trunc_bounds[of c] cb by linarith
  then have t1: "trunc c < 2 ^ 31"
    by (metis abs_less_iff of_int_less_iff of_int_numeral of_int_power)
  have ulo: "to_uint32 (max 0 (trunc c)) = nat (trunc c)"
    using t0 t1 by (simp add: to_uint32_small)
  have "0 \<le> min (int (inputSize impl div 2)) (trunc c)" using t0 by simp
  moreover have "min (int (inputSize impl div 2)) (trunc c) < 2 ^ 31" using t1 by simp
  ultimately have uhi: "to_uint32 (min (int (inputSize impl div 2)) (trunc c))
                        = nat (min (int (inputSize impl div 2)) (trunc c))"
    by (rule to_uint32_small)
  have empty: "nat (min (int (inputSize impl div 2)) (trunc c)) \<le> nat (trunc c)"
    by simp
  show ?thesis
    using i empty
    by (simp add: kernel_output_def lo hi od ulo uhi for_upto_done)
qed

lemma kernel_output_loop_PInf:
  assumes sf: "smoothingFactor impl = PInf" and ss: "0 < smoothedSize impl"
    and old: "real (inputSize impl div 2) < 2 ^ 31"
    and cap: "smoothedSize impl \<le> length lb" "smoothedSize impl \<le> length rb"
  shows "k \<le> smoothedSize impl \<Longrightarrow>
         for_upto k (smoothedSize impl) (kernel_output impl a) (nan_filled lb k, nan_filled rb k)
         = Some (nan_filled lb (smoothedSize impl), nan_filled rb (smoothedSize impl))"
proof (induction "smoothedSize impl - k" arbitrary: k)
  case 0
  then show ?case by (simp add: for_upto_done)
next
  case (Suc d)
  then have k: "k < smoothedSize impl" by simp
  then have kl: "k < length lb" "k < length rb" using cap by simp_all
  have body: "kernel_output impl a k (nan_filled lb k, nan_filled rb k)
              = Some (nan_filled lb (Suc k), nan_filled rb (Suc k))"
    using kernel_output_PInf[OF sf ss old k, of "nan_filled lb k" "nan_filled rb k" a] kl
    by (simp add: length_nan_filled nan_filled_step)
  have "for_upto k (smoothedSize impl) (kernel_output impl a) (nan_filled lb k, nan_filled rb k)
        = for_upto (Suc k) (smoothedSize impl) (kernel_output impl a)
            (nan_filled lb (Suc k), nan_filled rb (Suc k))"
    using k body by (rule for_upto_step)
  also have "\<dots> = Some (nan_filled lb (smoothedSize impl), nan_filled rb (smoothedSize impl))"
    using Suc.hyps(2) k by (intro Suc.hyps(1)) auto
  finally show ?case .
qed

lemma kernelSmooth_PInf:
  assumes sf: "smoothingFactor impl = PInf"
    and ss: "0 < smoothedSize impl" "smoothedSize impl < 2 ^ 32"
    and old: "real (inputSize impl div 2) < 2 ^ 31"
    and cap: "smoothedSize impl \<le> length (implLBuffer impl)"
             "smoothedSize impl \<le> length (implRBuffer impl)"
  shows "kernelSmooth impl a =
           Some (impl\<lparr>implLBuffer := lBuffer a, implRBuffer := rBuffer a\<rparr>,
                 a\<lparr>lBuffer := nan_filled (implLBuffer impl) (smoothedSize impl),
                   rBuffer := nan_filled (implRBuffer impl) (smoothedSize impl)\<rparr>)"
  using kernel_output_loop_PInf[OF sf ss(1) old cap, of 0 a] ss
  by (simp add: kernelSmooth_def nan_filled_def)

lemma newProccessImpl_zero_level:
  assumes "settings_smoothingLevel settings = Fin 0"
    and "0 < (settings_inputSize settings * settings_inputSize settings) mod 2 ^ 64"
  shows "smoothingFactor (newProccessImpl settings lAlloc rAlloc) = PInf"
  using assms by (simp add: newProccessImpl_def Let_def of_size_def)

section \<open>The claims on equaliser, volume and demultiplexer\<close>

lemma demo_pipeline_ready: "pipeline_ready (demo_impl level) (demo_audio (replicate 16 0))"
proof -
  have "(8::nat) \<in> (\<lambda>n. 2 ^ n) ` {0..<16}"
    by (rule image_eqI[of _ _ 3]) simp_all
  then show ?thesis
    by (simp add: pipeline_ready_def demo_impl_fields demo_audio_def fft_size_def)
qed



text \<open>
  \<^bold>\<open>C6.\<close> For a fixed amplitude \<open>amp > 0\<close> the equaliser weight of bin \<open>n\<close> is
  \<open>0.08 * amp * log10 (2 n / inputSize + 1.05)\<close>; the argument of the logarithm is at least
  \<open>1.05\<close>, the weight is positive, and it grows strictly with the bin index over
  \<open>[0, inputSize / 2)\<close>.
\<close>

theorem equaliser_weight_increasing:
  assumes "0 < amp" and "n < inSize div 2"
  shows "eq_weight (Fin amp) inSize n
           = Fin (0.08 * amp * log 10 (2 * real n / real inSize + 1.05))
       \<and> 1.05 \<le> 2 * real n / real inSize + 1.05
       \<and> fless (Fin 0) (eq_weight (Fin amp) inSize n)
       \<and> (\<forall>n'. n < n' \<and> n' < inSize div 2
              \<longrightarrow> fless (eq_weight (Fin amp) inSize n) (eq_weight (Fin amp) inSize n'))"
proof -
  have pos: "0 < inSize" using assms(2) by (cases inSize) simp_all
  have w: "eq_weight (Fin amp) inSize k = Fin (weight_real amp inSize k)" for k
    using pos by (rule eq_weight_Fin)
  have "fless (eq_weight (Fin amp) inSize n) (eq_weight (Fin amp) inSize n')" if "n < n'" for n'
    using weight_real_mono[OF assms(1) pos that] by (simp add: w)
  moreover have "fless (Fin 0) (eq_weight (Fin amp) inSize n)"
    using weight_real_pos[OF assms(1) pos, of n] by (simp add: w)
  ultimately show ?thesis
    by (simp add: w weight_real_def)
qed

theorem equaliser_weight_increasing_witness:
  "(0::real) < 1 \<and> (0::nat) < 8 div 2
   \<and> fless (Fin 0) (eq_weight (Fin 1) 8 0)
   \<and> fless (eq_weight (Fin 1) 8 0) (eq_weight (Fin 1) 8 1)
   \<and> fless (eq_weight (Fin 1) 8 0) (eq_weight (Fin 1) 8 3)"
proof -
  have "(0::real) < 1" "(0::nat) < 8 div 2" by simp_all
  from equaliser_weight_increasing[OF this]
  have "fless (Fin 0) (eq_weight (Fin 1) 8 0)"
    and "\<forall>n'. 0 < n' \<and> n' < 8 div 2
           \<longrightarrow> fless (eq_weight (Fin 1) 8 0) (eq_weight (Fin 1) 8 n')"
    by blast+
  then show ?thesis by simp
qed

lemma all_less_four: "(\<forall>j<4::nat. P j) \<longleftrightarrow> P 0 \<and> P 1 \<and> P 2 \<and> P 3"
proof -
  have "{..<4::nat} = {0, 1, 2, 3}" by auto
  then have "(\<forall>j<4::nat. P j) \<longleftrightarrow> (\<forall>j \<in> {0, 1, 2, 3}. P j)"
    by (metis lessThan_iff)
  then show ?thesis by simp
qed

lemma scaled_volume:
  assumes "n \<le> length xs" "\<forall>j < n. isfinite (xs ! j)"
  shows "\<forall>j < n. isfinite (map (fmul (Fin c)) xs ! j)"
    and "(\<Sum>j<n. fin_val (map (fmul (Fin c)) xs ! j)) = c * (\<Sum>j<n. fin_val (xs ! j))"
proof -
  have e: "map (fmul (Fin c)) xs ! j = Fin (c * fin_val (xs ! j))" if "j < n" for j
  proof -
    have "isfinite (xs ! j)" using assms(2) that by simp
    then obtain v where "xs ! j = Fin v" by (cases "xs ! j") simp_all
    then have "fmul (Fin c) (xs ! j) = Fin (c * fin_val (xs ! j))" by simp
    then show ?thesis using that assms(1) by simp
  qed
  show "\<forall>j < n. isfinite (map (fmul (Fin c)) xs ! j)" by (simp add: e)
  show "(\<Sum>j<n. fin_val (map (fmul (Fin c)) xs ! j)) = c * (\<Sum>j<n. fin_val (xs ! j))"
    by (simp add: e sum_distrib_left)
qed

text \<open>
  \<^bold>\<open>C7.\<close> Each channel's volume is the sum of the channel's spectrum entries over
  \<open>[0, inputSize / 2)\<close> divided by \<open>inputSize\<close> (not by the number of entries summed); for a
  non-negative spectrum the volume is non-negative, and multiplying the whole spectrum by a
  scalar multiplies the volume by the same scalar.
\<close>

theorem volume_is_sum_over_inputSize:
  assumes "0 < inputSize impl"
    and "inputSize impl div 2 \<le> length (lBuffer a)"
    and "inputSize impl div 2 \<le> length (rBuffer a)"
    and "\<forall>j < inputSize impl div 2. isfinite (lBuffer a ! j) \<and> isfinite (rBuffer a ! j)"
  shows "\<exists>a'. calculateVolume impl a = Some a'
         \<and> lVolume a' = Fin ((\<Sum>j<inputSize impl div 2. fin_val (lBuffer a ! j)) / real (inputSize impl))
         \<and> rVolume a' = Fin ((\<Sum>j<inputSize impl div 2. fin_val (rBuffer a ! j)) / real (inputSize impl))
         \<and> ((\<forall>j < inputSize impl div 2. 0 \<le> fin_val (lBuffer a ! j)) \<longrightarrow> fle (Fin 0) (lVolume a'))
         \<and> ((\<forall>j < inputSize impl div 2. 0 \<le> fin_val (rBuffer a ! j)) \<longrightarrow> fle (Fin 0) (rVolume a'))
         \<and> (\<forall>c. \<exists>a''. calculateVolume impl
                          (a\<lparr>lBuffer := map (fmul (Fin c)) (lBuffer a),
                             rBuffer := map (fmul (Fin c)) (rBuffer a)\<rparr>) = Some a''
                 \<and> lVolume a'' = fmul (Fin c) (lVolume a')
                 \<and> rVolume a'' = fmul (Fin c) (rVolume a'))"
proof -
  define N where "N = inputSize impl"
  define L where "L = (\<Sum>j<N div 2. fin_val (lBuffer a ! j))"
  define R where "R = (\<Sum>j<N div 2. fin_val (rBuffer a ! j))"
  have finl: "\<forall>j < N div 2. isfinite (lBuffer a ! j)" and finr: "\<forall>j < N div 2. isfinite (rBuffer a ! j)"
    using assms(4) by (simp_all add: N_def)
  have len: "N div 2 \<le> length (lBuffer a)" "N div 2 \<le> length (rBuffer a)"
    using assms(2,3) by (simp_all add: N_def)
  have vol: "calculateVolume impl a = Some (a\<lparr>lVolume := Fin (L / real N), rVolume := Fin (R / real N)\<rparr>)"
    using calculateVolume_eq[OF assms(1-3)] finl finr by (simp add: N_def L_def R_def)
  have nonneg: "0 \<le> L / real N" if "\<forall>j < N div 2. 0 \<le> fin_val (lBuffer a ! j)"
    using that by (auto simp add: L_def intro!: divide_nonneg_nonneg sum_nonneg)
  have nonnegr: "0 \<le> R / real N" if "\<forall>j < N div 2. 0 \<le> fin_val (rBuffer a ! j)"
    using that by (auto simp add: R_def intro!: divide_nonneg_nonneg sum_nonneg)
  have scaled: "calculateVolume impl (a\<lparr>lBuffer := map (fmul (Fin c)) (lBuffer a),
                                         rBuffer := map (fmul (Fin c)) (rBuffer a)\<rparr>)
                = Some (a\<lparr>lBuffer := map (fmul (Fin c)) (lBuffer a),
                          rBuffer := map (fmul (Fin c)) (rBuffer a),
                          lVolume := Fin (c * L / real N), rVolume := Fin (c * R / real N)\<rparr>)" for c
    using calculateVolume_eq[of impl "a\<lparr>lBuffer := map (fmul (Fin c)) (lBuffer a),
                                         rBuffer := map (fmul (Fin c)) (rBuffer a)\<rparr>"]
      assms(1) len scaled_volume[OF len(1) finl, of c] scaled_volume[OF len(2) finr, of c]
    by (simp add: N_def L_def R_def)
  show ?thesis
    unfolding vol N_def[symmetric] L_def[symmetric] R_def[symmetric]
    using nonneg nonnegr by (simp add: scaled)
qed

theorem volume_is_sum_over_inputSize_witness:
  "0 < inputSize (demo_impl (Fin (1 / 2)))
   \<and> calculateVolume (demo_impl (Fin (1 / 2)))
        (demo_spectrum [Fin 1, Fin 2, Fin 3, Fin 4] [Fin 0, Fin 0, Fin 0, Fin 8]) \<noteq> None
   \<and> lVolume (the (calculateVolume (demo_impl (Fin (1 / 2)))
        (demo_spectrum [Fin 1, Fin 2, Fin 3, Fin 4] [Fin 0, Fin 0, Fin 0, Fin 8]))) = Fin (10 / 8)
   \<and> rVolume (the (calculateVolume (demo_impl (Fin (1 / 2)))
        (demo_spectrum [Fin 1, Fin 2, Fin 3, Fin 4] [Fin 0, Fin 0, Fin 0, Fin 8]))) = Fin 1"
proof -
  let ?impl = "demo_impl (Fin (1 / 2))"
  let ?a = "demo_spectrum [Fin 1, Fin 2, Fin 3, Fin 4] [Fin 0, Fin 0, Fin 0, Fin 8]"
  have four: "{..<4::nat} = {0, 1, 2, 3}" by auto
  have h: "0 < inputSize ?impl" "inputSize ?impl div 2 \<le> length (lBuffer ?a)"
    "inputSize ?impl div 2 \<le> length (rBuffer ?a)"
    "\<forall>j < inputSize ?impl div 2. isfinite (lBuffer ?a ! j) \<and> isfinite (rBuffer ?a ! j)"
    by (simp_all add: demo_impl_fields demo_spectrum_def all_less_four)
  from volume_is_sum_over_inputSize[OF h]
  obtain a' where "calculateVolume ?impl ?a = Some a'"
    "lVolume a' = Fin ((\<Sum>j<inputSize ?impl div 2. fin_val (lBuffer ?a ! j)) / real (inputSize ?impl))"
    "rVolume a' = Fin ((\<Sum>j<inputSize ?impl div 2. fin_val (rBuffer ?a ! j)) / real (inputSize ?impl))"
    by blast
  then show ?thesis
    by (simp add: demo_impl_fields demo_spectrum_def four)
qed

lemma Complex_1_0: "Complex 1 0 = 1"
  by (simp add: complex_eq_iff)

lemma dft_impulse8: "dft [1, 0, 0, 0, 0, 0, 0, 0] = [1, 1, 1, 1, 1, 1, 1, 1]"
  by (simp add: dft_def upt_rec lessThan_nat_numeral lessThan_Suc Complex_0_0)

lemma dft_replicate:
  assumes "k < N"
  shows "dft (replicate N z) ! k = (if k = 0 then of_nat N * z else 0)"
proof -
  have "dft (replicate N z) ! k = (\<Sum>t<N. z * twiddle N ^ (k * t))"
    using assms by (simp add: dft_nth)
  also have "\<dots> = z * (\<Sum>t<N. twiddle N ^ (t * k) * cnj (twiddle N) ^ (0 * t))"
    by (simp add: sum_distrib_left mult.commute)
  also have "\<dots> = z * (if k = 0 then of_nat N else 0)"
    using assms by (subst twiddle_cross_sum) simp_all
  finally show ?thesis by simp
qed

lemma dft_constant4: "dft [z, z, z, z] = [4 * z, 0, 0, 0]"
proof -
  have r: "[z, z, z, z] = replicate 4 z" by (simp add: numeral_eq_Suc)
  have v: "dft (replicate 4 z) ! 0 = 4 * z" "dft (replicate 4 z) ! 1 = 0"
    "dft (replicate 4 z) ! 2 = 0" "dft (replicate 4 z) ! 3 = 0"
    using dft_replicate[of 0 4 z] dft_replicate[of 1 4 z] dft_replicate[of 2 4 z]
      dft_replicate[of 3 4 z] by simp_all
  have "\<forall>k<4. dft (replicate 4 z) ! k = [4 * z, 0, 0, 0] ! k"
    unfolding all_less_four using v by simp
  then show ?thesis
    unfolding r by (intro nth_equalityI) simp_all
qed

lemma bin_ignores_dc:
  assumes "2 \<le> inputSize impl div 2" "length X = fft_size impl"
  shows "left_bin impl (X[0 := z]) 1 = left_bin impl X 1"
    "right_bin impl (X[0 := z]) 1 = right_bin impl X 1"
  using assms
  by (auto simp add: left_bin_def right_bin_def mono_bin_def stereo_left_bin_def
      stereo_right_bin_def fft_size_def Let_def)

text \<open>
  \<^bold>\<open>C8.\<close> In mono and in stereo mode, after the demultiplexer has run, bins
  \<open>1 \<le> r < inputSize / 2\<close> of the two channels hold the magnitudes that the demultiplexer
  computes from the transformed frame, and bin 0 of each channel is a copy of bin 1 of the
  other channel: \<open>L[0] = R[1]\<close> and \<open>R[0] = L[1]\<close>. The value copied is computed from the
  spectrum entries at 1 and at the mirrored index only, so replacing the DC term (entry 0
  of the transformed frame) by any other number leaves it unchanged. In mono mode the two
  channels agree from bin 1 on, so bin 0 of each channel also equals its own bin 1.
\<close>

theorem bin_zero_from_other_channel:
  assumes "fft_size impl = 2 ^ n" and "n < 16"
    and "2 * fft_size impl \<le> length (buffer a)"
    and "2 \<le> inputSize impl div 2"
    and "inputSize impl div 2 \<le> length (lBuffer a)"
    and "inputSize impl div 2 \<le> length (rBuffer a)"
  shows "\<exists>a'. magnitudes impl a = Some a'
         \<and> (\<forall>r. 1 \<le> r \<and> r < inputSize impl div 2 \<longrightarrow>
               lBuffer a' ! r
                 = Fin (left_bin impl (dft (take (fft_size impl) (as_complex (buffer a)))) r)
             \<and> rBuffer a' ! r
                 = Fin (right_bin impl (dft (take (fft_size impl) (as_complex (buffer a)))) r))
         \<and> lBuffer a' ! 0
             = Fin (right_bin impl (dft (take (fft_size impl) (as_complex (buffer a)))) 1)
         \<and> rBuffer a' ! 0
             = Fin (left_bin impl (dft (take (fft_size impl) (as_complex (buffer a)))) 1)
         \<and> (\<forall>z. right_bin impl ((dft (take (fft_size impl) (as_complex (buffer a))))[0 := z]) 1
                   = right_bin impl (dft (take (fft_size impl) (as_complex (buffer a)))) 1
               \<and> left_bin impl ((dft (take (fft_size impl) (as_complex (buffer a))))[0 := z]) 1
                   = left_bin impl (dft (take (fft_size impl) (as_complex (buffer a)))) 1)
         \<and> lBuffer a' ! 0 = rBuffer a' ! 1 \<and> rBuffer a' ! 0 = lBuffer a' ! 1
         \<and> (channels impl = 1 \<longrightarrow>
               (\<forall>r. 1 \<le> r \<and> r < inputSize impl div 2 \<longrightarrow> lBuffer a' ! r = rBuffer a' ! r)
               \<and> lBuffer a' ! 0 = lBuffer a' ! 1 \<and> rBuffer a' ! 0 = rBuffer a' ! 1)"
proof -
  define X where "X = dft (take (fft_size impl) (as_complex (buffer a)))"
  obtain a' :: AudioData where res: "magnitudes impl a = Some a'"
    and ent: "\<forall>r. 1 \<le> r \<and> r < inputSize impl div 2 \<longrightarrow>
               lBuffer a' ! r = Fin (left_bin impl X r) \<and> rBuffer a' ! r = Fin (right_bin impl X r)"
    and zero: "lBuffer a' ! 0 = Fin (right_bin impl X 1)" "rBuffer a' ! 0 = Fin (left_bin impl X 1)"
    using magnitudes_values[OF assms] unfolding X_def by (elim exE conjE) blast
  have "fft_size impl \<le> length (as_complex (buffer a))"
    using assms(3) by (simp add: length_as_complex)
  then have lX: "length X = fft_size impl" by (simp add: X_def)
  have dc: "\<forall>z. right_bin impl (X[0 := z]) 1 = right_bin impl X 1
               \<and> left_bin impl (X[0 := z]) 1 = left_bin impl X 1"
    using bin_ignores_dc[OF assms(4) lX] by simp
  have e1: "lBuffer a' ! 1 = Fin (left_bin impl X 1)" "rBuffer a' ! 1 = Fin (right_bin impl X 1)"
    using ent assms(4) by simp_all
  have copy: "lBuffer a' ! 0 = rBuffer a' ! 1" "rBuffer a' ! 0 = lBuffer a' ! 1"
    using zero e1 by simp_all
  have mono: "(\<forall>r. 1 \<le> r \<and> r < inputSize impl div 2 \<longrightarrow> lBuffer a' ! r = rBuffer a' ! r)
               \<and> lBuffer a' ! 0 = lBuffer a' ! 1 \<and> rBuffer a' ! 0 = rBuffer a' ! 1"
    if "channels impl = 1"
    using ent zero e1 mono_bins_equal[OF that, of X] by simp
  show ?thesis
    using res ent zero dc copy mono unfolding X_def by blast
qed

theorem bin_zero_from_other_channel_witness:
  "fft_size (demo_impl (Fin (1 / 2))) = 2 ^ 3 \<and> (3::nat) < 16
   \<and> 2 * fft_size (demo_impl (Fin (1 / 2))) \<le> length (buffer left_impulse_frame)
   \<and> dft (take (fft_size (demo_impl (Fin (1 / 2)))) (as_complex (buffer left_impulse_frame))) ! 0 = 1
   \<and> magnitudes (demo_impl (Fin (1 / 2))) left_impulse_frame \<noteq> None
   \<and> lBuffer (the (magnitudes (demo_impl (Fin (1 / 2))) left_impulse_frame)) ! 0 = Fin 0
   \<and> rBuffer (the (magnitudes (demo_impl (Fin (1 / 2))) left_impulse_frame)) ! 1 = Fin 0
   \<and> rBuffer (the (magnitudes (demo_impl (Fin (1 / 2))) left_impulse_frame)) ! 0 = Fin 1
   \<and> lBuffer (the (magnitudes (demo_impl (Fin (1 / 2))) left_impulse_frame)) ! 1 = Fin 1
   \<and> lBuffer (the (magnitudes (demo_impl (Fin (1 / 2))) left_impulse_frame)) ! 3 = Fin 1
   \<and> channels demo_mono_impl = 1 \<and> fft_size demo_mono_impl = 2 ^ 2
   \<and> dft (take (fft_size demo_mono_impl) (as_complex (buffer constant_frame))) ! 0 = Complex 4 4
   \<and> magnitudes demo_mono_impl constant_frame \<noteq> None
   \<and> lBuffer (the (magnitudes demo_mono_impl constant_frame)) ! 0 = Fin 0
   \<and> rBuffer (the (magnitudes demo_mono_impl constant_frame)) ! 0 = Fin 0
   \<and> lBuffer (the (magnitudes demo_mono_impl constant_frame)) ! 1 = Fin 0
   \<and> rBuffer (the (magnitudes demo_mono_impl constant_frame)) ! 1 = Fin 0"
proof -
  let ?S = "demo_impl (Fin (1 / 2))"
  let ?F = "left_impulse_frame"
  let ?G = "constant_frame"
  have hs: "fft_size ?S = 2 ^ 3" "(3::nat) < 16" "2 * fft_size ?S \<le> length (buffer ?F)"
    "2 \<le> inputSize ?S div 2" "inputSize ?S div 2 \<le> length (lBuffer ?F)"
    "inputSize ?S div 2 \<le> length (rBuffer ?F)"
    by (simp_all add: fft_size_def demo_impl_fields demo_frame_def left_impulse_frame_def constant_frame_def)
  have hm: "fft_size demo_mono_impl = 2 ^ 2" "(2::nat) < 16"
    "2 * fft_size demo_mono_impl \<le> length (buffer ?G)"
    "2 \<le> inputSize demo_mono_impl div 2" "inputSize demo_mono_impl div 2 \<le> length (lBuffer ?G)"
    "inputSize demo_mono_impl div 2 \<le> length (rBuffer ?G)"
    and c: "channels demo_mono_impl = 1"
    by (simp_all add: demo_mono_impl_def fft_size_def demo_impl_fields demo_frame_def left_impulse_frame_def constant_frame_def)
  have XS: "dft (take (fft_size ?S) (as_complex (buffer ?F))) = [1, 1, 1, 1, 1, 1, 1, 1]"
    by (simp add: fft_size_def demo_impl_fields demo_frame_def left_impulse_frame_def constant_frame_def Complex_1_0 Complex_0_0
        dft_impulse8)
  have XM: "dft (take (fft_size demo_mono_impl) (as_complex (buffer ?G)))
            = [4 * Complex 1 1, 0, 0, 0]"
    by (simp add: demo_mono_impl_def fft_size_def demo_impl_fields demo_frame_def left_impulse_frame_def constant_frame_def dft_constant4)
  from bin_zero_from_other_channel[OF hs]
  obtain a' :: AudioData where s: "magnitudes ?S ?F = Some a'"
    "\<forall>r. 1 \<le> r \<and> r < inputSize ?S div 2 \<longrightarrow>
       lBuffer a' ! r = Fin (left_bin ?S (dft (take (fft_size ?S) (as_complex (buffer ?F)))) r)
     \<and> rBuffer a' ! r = Fin (right_bin ?S (dft (take (fft_size ?S) (as_complex (buffer ?F)))) r)"
    "lBuffer a' ! 0 = Fin (right_bin ?S (dft (take (fft_size ?S) (as_complex (buffer ?F)))) 1)"
    "rBuffer a' ! 0 = Fin (left_bin ?S (dft (take (fft_size ?S) (as_complex (buffer ?F)))) 1)"
    by (elim exE conjE) blast
  from bin_zero_from_other_channel[OF hm]
  obtain b' :: AudioData where m: "magnitudes demo_mono_impl ?G = Some b'"
    "\<forall>r. 1 \<le> r \<and> r < inputSize demo_mono_impl div 2 \<longrightarrow>
       lBuffer b' ! r
         = Fin (left_bin demo_mono_impl
                  (dft (take (fft_size demo_mono_impl) (as_complex (buffer ?G)))) r)
     \<and> rBuffer b' ! r
         = Fin (right_bin demo_mono_impl
                  (dft (take (fft_size demo_mono_impl) (as_complex (buffer ?G)))) r)"
    "lBuffer b' ! 0
       = Fin (right_bin demo_mono_impl
                (dft (take (fft_size demo_mono_impl) (as_complex (buffer ?G)))) 1)"
    "rBuffer b' ! 0
       = Fin (left_bin demo_mono_impl
                (dft (take (fft_size demo_mono_impl) (as_complex (buffer ?G)))) 1)"
    by (elim exE conjE) blast
  have sv: "lBuffer a' ! 0 = Fin 0" "rBuffer a' ! 1 = Fin 0" "rBuffer a' ! 0 = Fin 1"
    "lBuffer a' ! 1 = Fin 1" "lBuffer a' ! 3 = Fin 1"
    using s(2-4) unfolding XS
    by (simp_all add: left_bin_def right_bin_def stereo_left_bin_def stereo_right_bin_def
        demo_impl_fields)
  have mv: "lBuffer b' ! 0 = Fin 0" "rBuffer b' ! 0 = Fin 0" "lBuffer b' ! 1 = Fin 0"
    "rBuffer b' ! 1 = Fin 0"
    using m(2-4) c unfolding XM
    by (simp_all add: left_bin_def right_bin_def mono_bin_def demo_mono_impl_def
        demo_impl_fields)
  have dc: "dft (take (fft_size ?S) (as_complex (buffer ?F))) ! 0 = 1"
    "dft (take (fft_size demo_mono_impl) (as_complex (buffer ?G))) ! 0 = Complex 4 4"
    unfolding XS XM by (simp_all add: complex_eq_iff)
  show ?thesis
    using hs(1-3) hm(1) c dc sv mv by (simp add: s(1) m(1))
qed

section \<open>The claims on the smoother\<close>
























section \<open>The claims on the whole pipeline\<close>







text \<open>
  \<^bold>\<open>C1\<close> (the code at the failing input). With \<open>smoothingLevel = 0\<close> and \<open>inputSize = 8\<close> the
  constructor divides \<open>8\<close> by \<open>0\<close>: the smoothing factor is \<open>+\<infinity>\<close>, not NaN, the \<open>isnan\<close> test
  of \<open>proccessSignal\<close> does not fire, the smoother runs with radius \<open>0\<close> and every output is
  \<open>0 / 0\<close>.
\<close>

theorem zero_level_runs_smoother:
  "settings_smoothingLevel (demo_settings (Fin 0)) = Fin 0
   \<and> smoothingFactor (demo_impl (Fin 0)) = PInf
   \<and> \<not> isnan (smoothingFactor (demo_impl (Fin 0)))
   \<and> proccessSignal (demo_impl (Fin 0)) (demo_audio (replicate 16 0)) \<noteq> None
   \<and> lBuffer (snd (the (proccessSignal (demo_impl (Fin 0)) (demo_audio (replicate 16 0)))))
       = [NaN, NaN, NaN, NaN]
   \<and> rBuffer (snd (the (proccessSignal (demo_impl (Fin 0)) (demo_audio (replicate 16 0)))))
       = [NaN, NaN, NaN, NaN]"
proof -
  let ?impl = "demo_impl (Fin 0)"
  let ?a = "demo_audio (replicate 16 0)"
  obtain a1 a2 a3 a4 where st: "windowFunction ?impl ?a = Some a1" "magnitudes ?impl a1 = Some a2"
    "equalise ?impl a2 = Some a3" "calculateVolume ?impl a3 = Some a4"
    using pipeline_front[OF demo_pipeline_ready, of "Fin 0"] by blast
  have ps: "proccessSignal ?impl ?a = kernelSmooth ?impl a4"
    using st by (simp add: proccessSignal_def smooth_def demo_factor_zero)
  have ks: "kernelSmooth ?impl a4 =
           Some (?impl\<lparr>implLBuffer := lBuffer a4, implRBuffer := rBuffer a4\<rparr>,
                 a4\<lparr>lBuffer := nan_filled (implLBuffer ?impl) (smoothedSize ?impl),
                    rBuffer := nan_filled (implRBuffer ?impl) (smoothedSize ?impl)\<rparr>)"
    by (rule kernelSmooth_PInf) (simp_all add: demo_factor_zero demo_impl_fields)
  have "nan_filled (replicate 4 (Fin 0)) 4 = [NaN, NaN, NaN, NaN]"
    by (simp add: nan_filled_def numeral_eq_Suc)
  then show ?thesis
    by (simp add: ps ks demo_factor_zero demo_impl_fields demo_settings_def)
qed

end
